theory Spec2Isabelle
  imports Main "HOL-Library.Word" "HOL-Library.Multiset" "HOL-Library.List_Lexorder"
begin

section \<open>Suffix array and LCP array by rank doubling and Kasai's pass\<close>

text \<open>
  The development embeds \<^verbatim>\<open>buildSuffixArrayAndLCP\<close> of \<^verbatim>\<open>suffix_array.cc\<close>.

  \<^item> The text is a \<^typ>\<open>string\<close>, a list of bytes, as \<^verbatim>\<open>std::string\<close> is.
  \<^item> Positions (the entries of \<^verbatim>\<open>sa\<close>, loop counters, \<^verbatim>\<open>gap\<close>, \<^verbatim>\<open>n\<close>) are
    natural numbers; rank values, \<^verbatim>\<open>h\<close> and the entries of \<^verbatim>\<open>lcp\<close> are integers,
    because the source stores \<^verbatim>\<open>-1\<close> and converted \<^verbatim>\<open>char\<close> values in them.
  \<^item> \<^verbatim>\<open>int\<close> is modelled without a bound. The rank-doubling loop has no exit but its
    \<^verbatim>\<open>break\<close>; it is a partial function whose value \<open>None\<close> means that the loop
    never reaches the \<^verbatim>\<open>break\<close>.
  \<^item> \<open>n\<close> is the length of the text. The source reads it into an \<^verbatim>\<open>int\<close>
    (\<^verbatim>\<open>int n = text.length()\<close>), which agrees with the length on texts of fewer than
    \<open>2^31\<close> symbols; longer texts are outside the model.
  \<^item> Vectors are lists. Every index the function computes is in range: \<^verbatim>\<open>sa\<close> stays a
    permutation of \<open>0..n-1\<close>, the reads at \<^verbatim>\<open>i + gap\<close>, \<^verbatim>\<open>i + h\<close> and
    \<^verbatim>\<open>prev_sa_idx + h\<close> are guarded, and the rank table that Kasai's pass reads is
    the inverse of \<^verbatim>\<open>sa\<close>.
\<close>

subsection \<open>Data\<close>

record SuffixArrayResult =
  sa :: "nat list"
  lcp :: "int list"

text \<open>
  \<^verbatim>\<open>rank_array[i] = text[i]\<close> converts a \<^verbatim>\<open>char\<close> to \<^verbatim>\<open>int\<close>. On the ABIs where
  \<^verbatim>\<open>char\<close> is a signed 8-bit type (x86 and x86-64 with GCC, Clang and MSVC) the bytes
  \<^verbatim>\<open>0x80\<close> to \<^verbatim>\<open>0xFF\<close> convert to \<open>-128\<close> to \<open>-1\<close>. On bytes below \<^verbatim>\<open>0x80\<close> the
  signed and the unsigned reading agree.
\<close>

definition char_to_int :: "char \<Rightarrow> int" where
  "char_to_int c = sint (of_char c :: 8 word)"

subsection \<open>The comparator\<close>

text \<open>
  The lambda \<^verbatim>\<open>compare_suffixes\<close> captures \<^verbatim>\<open>rank_array\<close>, \<^verbatim>\<open>gap\<close> and \<^verbatim>\<open>n\<close> by
  reference; here they are parameters.
\<close>

definition compare_suffixes :: "int list \<Rightarrow> nat \<Rightarrow> nat \<Rightarrow> nat \<Rightarrow> nat \<Rightarrow> bool" where
  "compare_suffixes rank_array gap n i j =
     (if rank_array ! i \<noteq> rank_array ! j then rank_array ! i < rank_array ! j
      else
        (let ri_next = (if i + gap < n then rank_array ! (i + gap) else - 1);
             rj_next = (if j + gap < n then rank_array ! (j + gap) else - 1)
         in ri_next < rj_next))"

subsection \<open>Sorting\<close>

text \<open>
  Modelled from the spec: \<^verbatim>\<open>std::sort\<close> is a library routine and not part of the
  repository. The specification asks to "stably resort SA by this comparison"; the
  model is the stable insertion sort under the comparator \<open>lt\<close>. (For ranges of at
  most 16 elements libstdc++ runs an insertion sort as well.) The proofs below use
  only that the result is a permutation of the input without a descending pair.
\<close>

fun insert_sorted :: "('a \<Rightarrow> 'a \<Rightarrow> bool) \<Rightarrow> 'a \<Rightarrow> 'a list \<Rightarrow> 'a list" where
  "insert_sorted lt x [] = [x]"
| "insert_sorted lt x (y # ys) =
     (if lt y x then y # insert_sorted lt x ys else x # y # ys)"

definition std_sort :: "('a \<Rightarrow> 'a \<Rightarrow> bool) \<Rightarrow> 'a list \<Rightarrow> 'a list" where
  "std_sort lt xs = foldr (insert_sorted lt) xs []"

subsection \<open>One pass of the rank-doubling loop\<close>

text \<open>
  \<^verbatim>\<open>temp_rank_array[sa[i]] = temp_rank_array[sa[i-1]] + (compare_suffixes(sa[i-1], sa[i]) ? 1 : 0)\<close>
\<close>

definition rerank_step :: "(nat \<Rightarrow> nat \<Rightarrow> bool) \<Rightarrow> nat list \<Rightarrow> nat \<Rightarrow> int list \<Rightarrow> int list" where
  "rerank_step lt s i temp =
     temp[s ! i := temp ! (s ! (i - 1)) + (if lt (s ! (i - 1)) (s ! i) then 1 else 0)]"

definition rerank :: "(nat \<Rightarrow> nat \<Rightarrow> bool) \<Rightarrow> nat list \<Rightarrow> nat \<Rightarrow> int list \<Rightarrow> int list" where
  "rerank lt s n temp = fold (rerank_step lt s) [1..<n] (temp[s ! 0 := 0])"

text \<open>\<^verbatim>\<open>for (int i = 0; i < n; ++i) rank_array[i] = temp_rank_array[i];\<close>\<close>

definition copy_ranks :: "nat \<Rightarrow> int list \<Rightarrow> int list \<Rightarrow> int list" where
  "copy_ranks n temp rank_array = fold (\<lambda>i r. r[i := temp ! i]) [0..<n] rank_array"

text \<open>
  The state of the loop: \<^verbatim>\<open>gap\<close>, \<^verbatim>\<open>sa\<close>, \<^verbatim>\<open>rank_array\<close> and \<^verbatim>\<open>temp_rank_array\<close>,
  and a history variable \<open>passes\<close> that counts the executions of the loop body (the
  source has no such variable; nothing reads it).
  \<open>pass\<close> is the loop body up to the test of the \<^verbatim>\<open>break\<close>; it leaves \<^verbatim>\<open>gap\<close> as it is.
\<close>

record loop_state =
  gap :: nat
  sa_arr :: "nat list"
  rank_array :: "int list"
  temp_rank_array :: "int list"
  passes :: nat

definition pass :: "nat \<Rightarrow> loop_state \<Rightarrow> loop_state" where
  "pass n st =
     (let lt = compare_suffixes (rank_array st) (gap st) n;
          s = std_sort lt (sa_arr st);
          temp = rerank lt s n (temp_rank_array st);
          r = copy_ranks n temp (rank_array st)
      in \<lparr>gap = gap st, sa_arr = s, rank_array = r, temp_rank_array = temp,
         passes = Suc (passes st)\<rparr>)"

text \<open>\<^verbatim>\<open>if (rank_array[sa[n-1]] == n - 1) break;\<close>\<close>

definition loop_exit :: "nat \<Rightarrow> loop_state \<Rightarrow> bool" where
  "loop_exit n st \<longleftrightarrow> rank_array st ! (sa_arr st ! (n - 1)) = int n - 1"

text \<open>\<^verbatim>\<open>gap *= 2\<close>, the step of the \<^verbatim>\<open>for\<close> statement.\<close>

definition double_gap :: "loop_state \<Rightarrow> loop_state" where
  "double_gap st = st\<lparr>gap := gap st * 2\<rparr>"

text \<open>\<^verbatim>\<open>for (int gap = 1; ; gap *= 2) { ... }\<close>, entered in state \<open>st\<close>.\<close>

partial_function (option) doubling_loop :: "nat \<Rightarrow> loop_state \<Rightarrow> loop_state option" where
  "doubling_loop n st =
     (let st' = pass n st
      in if loop_exit n st' then Some st' else doubling_loop n (double_gap st'))"

text \<open>The state in which the loop is entered, for a text of length \<open>n > 0\<close>.\<close>

definition init_state :: "string \<Rightarrow> loop_state" where
  "init_state text =
     \<lparr>gap = 1, sa_arr = [0..<length text], rank_array = map char_to_int text,
      temp_rank_array = replicate (length text) 0, passes = 0\<rparr>"

subsection \<open>Kasai's pass\<close>

text \<open>
  \<^verbatim>\<open>while (i + h < n && prev_sa_idx + h < n && text[i+h] == text[prev_sa_idx+h]) h++;\<close>
\<close>

function lcp_extend :: "string \<Rightarrow> nat \<Rightarrow> nat \<Rightarrow> int \<Rightarrow> int" where
  "lcp_extend text i prev h =
     (if int i + h < int (length text) \<and> int prev + h < int (length text)
         \<and> text ! nat (int i + h) = text ! nat (int prev + h)
      then lcp_extend text i prev (h + 1) else h)"
  by pat_completeness auto
termination
  by (relation "measure (\<lambda>(text, i, prev, h). nat (int (length text) - (int i + h)))") auto

text \<open>The body of the \<^verbatim>\<open>for\<close> loop over the positions \<open>i\<close>; its state is \<^verbatim>\<open>lcp\<close> and \<^verbatim>\<open>h\<close>.\<close>

definition kasai_step :: "string \<Rightarrow> nat list \<Rightarrow> int list \<Rightarrow> nat \<Rightarrow> int list \<times> int \<Rightarrow> int list \<times> int" where
  "kasai_step text s r i = (\<lambda>(l, h).
     if r ! i > 0 then
       (let prev_sa_idx = s ! nat (r ! i - 1);
            h1 = lcp_extend text i prev_sa_idx h;
            l1 = l[nat (r ! i) := h1]
        in (l1, if h1 > 0 then h1 - 1 else h1))
     else (l, h))"

definition kasai :: "string \<Rightarrow> nat list \<Rightarrow> int list \<Rightarrow> int list" where
  "kasai text s r =
     fst (fold (kasai_step text s r) [0..<length text] (replicate (length text) 0, 0))"

subsection \<open>The function\<close>

definition buildSuffixArrayAndLCP :: "string \<Rightarrow> SuffixArrayResult option" where
  "buildSuffixArrayAndLCP text =
     (let n = length text
      in if n = 0 then Some \<lparr>sa = [], lcp = []\<rparr>
         else
           (case doubling_loop n (init_state text) of
              None \<Rightarrow> None
            | Some st \<Rightarrow>
                Some \<lparr>sa = sa_arr st, lcp = kasai text (sa_arr st) (rank_array st)\<rparr>))"

text \<open>
  The number of times the body of the rank-doubling loop runs in a call of
  \<^verbatim>\<open>buildSuffixArrayAndLCP\<close>: none when the guard \<^verbatim>\<open>if (n == 0) return\<close> fires, the
  final value of the history variable otherwise.
\<close>

definition loop_passes :: "string \<Rightarrow> nat option" where
  "loop_passes text =
     (let n = length text
      in if n = 0 then Some 0
         else map_option passes (doubling_loop n (init_state text)))"

section \<open>Notions of the specification\<close>

text \<open>
  Lexicographic comparison of symbol sequences, the shorter of two sequences first when
  it is a prefix of the other. Symbols are compared by the integer the code reads from
  them.
\<close>

fun lex_le :: "int list \<Rightarrow> int list \<Rightarrow> bool" where
  "lex_le [] ys = True"
| "lex_le (x # xs) [] = False"
| "lex_le (x # xs) (y # ys) = (x < y \<or> (x = y \<and> lex_le xs ys))"

definition suffix_le :: "string \<Rightarrow> nat \<Rightarrow> nat \<Rightarrow> bool" where
  "suffix_le text i j = lex_le (map char_to_int (drop i text)) (map char_to_int (drop j text))"

text \<open>The length of the longest common prefix, by comparing symbol with symbol.\<close>

fun lcp_len :: "'a list \<Rightarrow> 'a list \<Rightarrow> nat" where
  "lcp_len (x # xs) (y # ys) = (if x = y then Suc (lcp_len xs ys) else 0)"
| "lcp_len xs ys = 0"

definition suffix_lcp :: "string \<Rightarrow> nat \<Rightarrow> nat \<Rightarrow> int" where
  "suffix_lcp text i j = int (lcp_len (drop i text) (drop j text))"

text \<open>
  Texts all of whose bytes are below \<^verbatim>\<open>0x80\<close>: the texts on which a signed and an
  unsigned \<^verbatim>\<open>char\<close> read the same values.
\<close>

definition seven_bit :: "string \<Rightarrow> bool" where
  "seven_bit text \<longleftrightarrow> (\<forall>c \<in> set text. (of_char c :: nat) < 128)"

section \<open>Auxiliary notions of the proofs\<close>

text \<open>The state at the head of the loop body after \<open>k\<close> passes that did not exit.\<close>

primrec loop_head :: "nat \<Rightarrow> loop_state \<Rightarrow> nat \<Rightarrow> loop_state" where
  "loop_head n st 0 = st"
| "loop_head n st (Suc k) = double_gap (pass n (loop_head n st k))"

text \<open>The loop unrolled at most \<open>k\<close> times; it serves to evaluate the loop on a given text.\<close>

fun doubling_loop_fuel :: "nat \<Rightarrow> nat \<Rightarrow> loop_state \<Rightarrow> loop_state option" where
  "doubling_loop_fuel 0 n st = None"
| "doubling_loop_fuel (Suc k) n st =
     (let st' = pass n st
      in if loop_exit n st' then Some st' else doubling_loop_fuel k n (double_gap st'))"

text \<open>What a loop state needs for the array accesses of a pass to be in range.\<close>

definition wf_state :: "nat \<Rightarrow> loop_state \<Rightarrow> bool" where
  "wf_state n st \<longleftrightarrow>
     mset (sa_arr st) = mset [0..<n] \<and> length (rank_array st) = n \<and> length (temp_rank_array st) = n"

text \<open>The rank that the recomputation gives to the \<open>j\<close>-th entry of the sorted array.\<close>

fun rank_steps :: "(nat \<Rightarrow> nat \<Rightarrow> bool) \<Rightarrow> nat list \<Rightarrow> nat \<Rightarrow> int" where
  "rank_steps lt s 0 = 0"
| "rank_steps lt s (Suc j) = rank_steps lt s j + (if lt (s ! j) (s ! Suc j) then 1 else 0)"

text \<open>The first \<open>len\<close> symbols of the suffix at position \<open>i\<close>.\<close>

definition prefix_key :: "string \<Rightarrow> nat \<Rightarrow> nat \<Rightarrow> int list" where
  "prefix_key text len i = take len (drop i (map char_to_int text))"

text \<open>
  A rank table \<open>r\<close> that has no negative entry and orders the positions as the first
  \<open>g\<close> symbols of their suffixes do.
\<close>

definition rank_rep :: "string \<Rightarrow> nat \<Rightarrow> int list \<Rightarrow> bool" where
  "rank_rep text g r \<longleftrightarrow>
     (\<forall>i < length text. 0 \<le> r ! i)
     \<and> (\<forall>i < length text. \<forall>j < length text.
           r ! i < r ! j \<longleftrightarrow> prefix_key text g i < prefix_key text g j)"

text \<open>The invariant of the rank-doubling loop at the head of its body.\<close>

definition loop_inv :: "string \<Rightarrow> loop_state \<Rightarrow> bool" where
  "loop_inv text st \<longleftrightarrow>
     wf_state (length text) st \<and> 1 \<le> gap st \<and> rank_rep text (gap st) (rank_array st)"

text \<open>
  What Kasai's pass relies on: the suffix array is a permutation that sorts the
  suffixes, and the rank table is its inverse.
\<close>

definition final_ok :: "string \<Rightarrow> loop_state \<Rightarrow> bool" where
  "final_ok text st \<longleftrightarrow>
     wf_state (length text) st
     \<and> (\<forall>i < length text. rank_array st ! (sa_arr st ! i) = int i)
     \<and> (\<forall>a b. a < b \<and> b < length text \<longrightarrow>
           drop (sa_arr st ! a) (map char_to_int text) < drop (sa_arr st ! b) (map char_to_int text))"

text \<open>
  The length of the longest common prefix of the suffix at \<open>i\<close> and the suffix that
  precedes it in the suffix array \<open>s\<close>, and the invariant of Kasai's pass before it
  handles position \<open>m\<close>.
\<close>

definition pred_lcp :: "string \<Rightarrow> nat list \<Rightarrow> int list \<Rightarrow> nat \<Rightarrow> nat" where
  "pred_lcp t s r i = lcp_len (drop i t) (drop (s ! nat (r ! i - 1)) t)"

definition kasai_inv :: "string \<Rightarrow> nat list \<Rightarrow> int list \<Rightarrow> nat \<Rightarrow> int list \<times> int \<Rightarrow> bool" where
  "kasai_inv t s r m = (\<lambda>(l, h).
     length l = length t \<and> 0 \<le> h \<and> l ! 0 = 0
     \<and> (\<forall>i < m. 0 < r ! i \<longrightarrow> l ! nat (r ! i) = int (pred_lcp t s r i))
     \<and> (0 < h \<longrightarrow> m < length t \<and> 0 < r ! m \<and> h \<le> int (pred_lcp t s r m)))"

text \<open>
  The loop states of the text \<^verbatim>\<open>"\xff\xff"\<close>: the two positions compare equal in each
  of them.
\<close>

definition stuck :: "loop_state \<Rightarrow> bool" where
  "stuck st \<longleftrightarrow>
     sa_arr st = [0, 1] \<and> length (temp_rank_array st) = 2
     \<and> ((gap st = 1 \<and> rank_array st = [- 1, - 1]) \<or> (2 \<le> gap st \<and> rank_array st = [0, 0]))"

section \<open>The passes of the loop\<close>

subsection \<open>Sorting\<close>

lemma mset_insert_sorted: "mset (insert_sorted lt x xs) = add_mset x (mset xs)"
  by (induction xs) simp_all

lemma mset_std_sort: "mset (std_sort lt xs) = mset xs"
  by (induction xs) (simp_all add: std_sort_def mset_insert_sorted)

lemma length_std_sort: "length (std_sort lt xs) = length xs"
  using mset_std_sort [of lt xs] by (metis size_mset)

lemma set_std_sort: "set (std_sort lt xs) = set xs"
  using mset_std_sort [of lt xs] by (metis set_mset_mset)

lemma distinct_std_sort: "distinct (std_sort lt xs) = distinct xs"
  using mset_std_sort [of lt xs] by (metis distinct_count_atmost_1 set_mset_mset)

lemma set_insert_sorted: "set (insert_sorted lt x xs) = insert x (set xs)"
  using mset_insert_sorted[of lt x xs] by (metis set_mset_mset set_mset_add_mset_insert)

lemma sorted_insert_sorted:
  fixes f :: "'a \<Rightarrow> 'b :: linorder"
  assumes "\<forall>a \<in> set (x # xs). \<forall>b \<in> set (x # xs). lt a b \<longleftrightarrow> f a < f b"
    and "sorted (map f xs)"
  shows "sorted (map f (insert_sorted lt x xs))"
  using assms
proof (induction xs)
  case Nil
  then show ?case by simp
next
  case (Cons y ys)
  show ?case
  proof (cases "lt y x")
    case True
    then have yx: "f y < f x" using Cons.prems(1) by simp
    have "sorted (map f (insert_sorted lt x ys))"
      using Cons.prems by (intro Cons.IH) auto
    moreover have "\<forall>z \<in> set (insert_sorted lt x ys). f y \<le> f z"
      using Cons.prems(2) yx by (auto simp: set_insert_sorted)
    ultimately show ?thesis using True by simp
  next
    case False
    then have "f x \<le> f y" using Cons.prems(1) by (simp add: not_less)
    with Cons.prems(2) False show ?thesis by auto
  qed
qed

lemma sorted_std_sort:
  fixes f :: "'a \<Rightarrow> 'b :: linorder"
  assumes "\<forall>a \<in> set xs. \<forall>b \<in> set xs. lt a b \<longleftrightarrow> f a < f b"
  shows "sorted (map f (std_sort lt xs))"
  using assms
proof (induction xs)
  case Nil
  then show ?case by (simp add: std_sort_def)
next
  case (Cons x xs)
  have IH: "sorted (map f (std_sort lt xs))"
    using Cons.prems by (intro Cons.IH) auto
  have "std_sort lt (x # xs) = insert_sorted lt x (std_sort lt xs)"
    by (simp add: std_sort_def)
  moreover have "sorted (map f (insert_sorted lt x (std_sort lt xs)))"
    using Cons.prems IH by (intro sorted_insert_sorted) (auto simp: set_std_sort)
  ultimately show ?case by simp
qed

subsection \<open>The rank table after a pass\<close>

lemma length_rerank_step: "length (rerank_step lt s i temp) = length temp"
  by (simp add: rerank_step_def)

lemma length_fold_rerank_step: "length (fold (rerank_step lt s) is temp) = length temp"
  by (induction "is" arbitrary: temp) (simp_all add: length_rerank_step)

lemma length_rerank: "length (rerank lt s n temp) = length temp"
  by (simp add: rerank_def length_fold_rerank_step)

lemma rerank_prefix:
  assumes "distinct s" and "\<forall>x \<in> set s. x < length temp" and "m < length s"
  shows "\<forall>j \<le> m. fold (rerank_step lt s) [1..<Suc m] (temp[s ! 0 := 0]) ! (s ! j) = rank_steps lt s j"
  using assms(3)
proof (induction m)
  case 0
  with assms(2) show ?case by simp
next
  case (Suc m)
  define t where "t = fold (rerank_step lt s) [1..<Suc m] (temp[s ! 0 := 0])"
  define t' where "t' = fold (rerank_step lt s) [1..<Suc (Suc m)] (temp[s ! 0 := 0])"
  have IH: "\<forall>j \<le> m. t ! (s ! j) = rank_steps lt s j"
    using Suc unfolding t_def by simp
  have len: "length t = length temp"
    by (simp add: t_def length_fold_rerank_step)
  have "[1..<Suc (Suc m)] = [1..<Suc m] @ [Suc m]"
    by (rule upt_Suc_append) simp
  then have unfold: "t' = t[s ! Suc m := t ! (s ! m) + (if lt (s ! m) (s ! Suc m) then 1 else 0)]"
    unfolding t_def t'_def by (simp only: fold_append fold.simps comp_def id_def rerank_step_def diff_Suc_1)
  have in_range: "s ! Suc m < length t"
    using assms(2) Suc.prems len by simp
  have "t' ! (s ! j) = rank_steps lt s j" if j: "j \<le> Suc m" for j
  proof (cases "j = Suc m")
    case True
    have "t' ! (s ! Suc m) = t ! (s ! m) + (if lt (s ! m) (s ! Suc m) then 1 else 0)"
      using in_range by (simp only: unfold nth_list_update_eq)
    with IH True show ?thesis
      by simp
  next
    case False
    with j have jm: "j \<le> m" by simp
    with Suc.prems assms(1) have "s ! j \<noteq> s ! Suc m"
      by (simp add: nth_eq_iff_index_eq)
    then have "t' ! (s ! j) = t ! (s ! j)"
      by (simp only: unfold) simp
    with IH jm show ?thesis
      by simp
  qed
  then show ?case
    unfolding t'_def by blast
qed

lemma rerank_nth:
  assumes "distinct s" and "\<forall>x \<in> set s. x < length temp" and "length s = n" and "j < n"
  shows "rerank lt s n temp ! (s ! j) = rank_steps lt s j"
proof -
  from assms(3,4) obtain m where m: "n = Suc m" by (cases n) auto
  with assms have "\<forall>j \<le> m. fold (rerank_step lt s) [1..<Suc m] (temp[s ! 0 := 0]) ! (s ! j) = rank_steps lt s j"
    by (intro rerank_prefix) auto
  with m assms(4) show ?thesis
    by (simp add: rerank_def)
qed

lemma copy_ranks_prefix:
  "m \<le> length temp \<Longrightarrow> m \<le> length r \<Longrightarrow>
   fold (\<lambda>i r. r[i := temp ! i]) [0..<m] r = take m temp @ drop m r"
proof (induction m)
  case 0
  then show ?case by simp
next
  case (Suc m)
  then have "fold (\<lambda>i r. r[i := temp ! i]) [0..<Suc m] r = (take m temp @ drop m r)[m := temp ! m]"
    by simp
  also have "\<dots> = take (Suc m) temp @ drop (Suc m) r"
    using Suc.prems
    by (simp add: list_update_append take_Suc_conv_app_nth upd_conv_take_nth_drop min_def)
  finally show ?case .
qed

lemma copy_ranks_all: "length temp = n \<Longrightarrow> length r = n \<Longrightarrow> copy_ranks n temp r = temp"
  by (simp add: copy_ranks_def copy_ranks_prefix)

lemma wf_state_perm:
  assumes "wf_state n st"
  shows "distinct (sa_arr st)" and "set (sa_arr st) = {..<n}" and "length (sa_arr st) = n"
proof -
  from assms have m: "mset (sa_arr st) = mset [0..<n]" by (simp add: wf_state_def)
  show "distinct (sa_arr st)" using m by (metis distinct_upt mset_eq_imp_distinct_iff)
  show "set (sa_arr st) = {..<n}" using m by (metis atLeast_upt mset_eq_setD)
  show "length (sa_arr st) = n" using m by (metis length_upt mset_eq_length minus_nat.diff_0)
qed

lemma wf_init_state: "wf_state (length text) (init_state text)"
  by (simp add: wf_state_def init_state_def)

lemma sa_arr_pass: "sa_arr (pass n st) = std_sort (compare_suffixes (rank_array st) (gap st) n) (sa_arr st)"
  by (simp add: pass_def Let_def)

lemma gap_pass: "gap (pass n st) = gap st"
  by (simp add: pass_def Let_def)

lemma passes_pass: "passes (pass n st) = Suc (passes st)"
  by (simp add: pass_def Let_def)

lemma temp_pass:
  "temp_rank_array (pass n st) =
     rerank (compare_suffixes (rank_array st) (gap st) n) (sa_arr (pass n st)) n (temp_rank_array st)"
  by (simp add: pass_def Let_def)

lemma rank_pass:
  "wf_state n st \<Longrightarrow> rank_array (pass n st) = temp_rank_array (pass n st)"
  by (simp add: pass_def Let_def wf_state_def copy_ranks_all length_rerank)

lemma wf_pass: "wf_state n st \<Longrightarrow> wf_state n (pass n st)"
  by (simp add: pass_def Let_def wf_state_def copy_ranks_all length_rerank mset_std_sort)

lemma wf_double_gap: "wf_state n (double_gap st) = wf_state n st"
  by (simp add: wf_state_def double_gap_def)

lemma wf_loop_head: "wf_state n st \<Longrightarrow> wf_state n (loop_head n st k)"
  by (induction k) (simp_all add: wf_double_gap wf_pass)

lemma rank_pass_nth:
  assumes "wf_state n st" and "j < n"
  shows "rank_array (pass n st) ! (sa_arr (pass n st) ! j)
          = rank_steps (compare_suffixes (rank_array st) (gap st) n) (sa_arr (pass n st)) j"
proof -
  have wf: "wf_state n (pass n st)" using assms(1) by (rule wf_pass)
  have "\<forall>x \<in> set (sa_arr (pass n st)). x < length (temp_rank_array st)"
    using wf_state_perm(2)[OF wf] assms(1) by (simp add: wf_state_def)
  then show ?thesis
    using rank_pass[OF assms(1)] wf_state_perm(1,3)[OF wf] assms(2)
    by (simp add: temp_pass rerank_nth)
qed

lemma rank_steps_mono: "i \<le> j \<Longrightarrow> rank_steps lt s i \<le> rank_steps lt s j"
  by (induction j) (auto simp: le_Suc_eq)

lemma rank_steps_slow: "i \<le> j \<Longrightarrow> rank_steps lt s j \<le> rank_steps lt s i + int (j - i)"
proof (induction j)
  case 0
  then show ?case by simp
next
  case (Suc j)
  show ?case
  proof (cases "i = Suc j")
    case True
    then show ?thesis by simp
  next
    case False
    with Suc.prems have "i \<le> j" by simp
    then have "rank_steps lt s j \<le> rank_steps lt s i + int (j - i)" by (rule Suc.IH)
    moreover have "Suc j - i = Suc (j - i)" using \<open>i \<le> j\<close> by simp
    ultimately show ?thesis by simp
  qed
qed

lemma rank_steps_nonneg: "0 \<le> rank_steps lt s j"
  using rank_steps_mono [of 0 j lt s] by simp

lemma rank_steps_full:
  assumes "rank_steps lt s m = int m" and "j \<le> m"
  shows "rank_steps lt s j = int j"
proof -
  have "rank_steps lt s m \<le> rank_steps lt s j + int (m - j)"
    using assms(2) by (rule rank_steps_slow)
  moreover have "rank_steps lt s j \<le> rank_steps lt s 0 + int (j - 0)"
    by (rule rank_steps_slow) simp
  ultimately show ?thesis using assms by simp
qed

lemma rank_steps_strict:
  assumes "\<And>k. Suc k < m \<Longrightarrow> lt (s ! k) (s ! Suc k)"
  shows "j < m \<Longrightarrow> rank_steps lt s j = int j"
proof (induction j)
  case 0
  then show ?case by simp
next
  case (Suc j)
  then show ?case using assms[of j] by simp
qed

lemma pass_rank_sorted:
  assumes "wf_state n st"
  shows "sorted (map (\<lambda>i. rank_array (pass n st) ! i) (sa_arr (pass n st)))"
proof -
  let ?s = "sa_arr (pass n st)"
  let ?lt = "compare_suffixes (rank_array st) (gap st) n"
  have len: "length ?s = n"
    using wf_state_perm(3)[OF wf_pass[OF assms]] .
  have "map (\<lambda>i. rank_array (pass n st) ! i) ?s ! i \<le> map (\<lambda>i. rank_array (pass n st) ! i) ?s ! j"
    if "i \<le> j" "j < n" for i j
  proof -
    from that have "i < n" by simp
    have "rank_array (pass n st) ! (?s ! i) = rank_steps ?lt ?s i"
      using assms \<open>i < n\<close> by (rule rank_pass_nth)
    moreover have "rank_array (pass n st) ! (?s ! j) = rank_steps ?lt ?s j"
      using assms \<open>j < n\<close> by (rule rank_pass_nth)
    moreover have "rank_steps ?lt ?s i \<le> rank_steps ?lt ?s j"
      using \<open>i \<le> j\<close> by (rule rank_steps_mono)
    ultimately show ?thesis
      using len \<open>i < n\<close> \<open>j < n\<close> by (simp only: nth_map)
  qed
  then show ?thesis
    using len by (simp only: sorted_iff_nth_mono length_map) blast
qed

lemma pass_exit_inverse:
  assumes "wf_state n st" and "loop_exit n (pass n st)" and "i < n"
  shows "rank_array (pass n st) ! (sa_arr (pass n st) ! i) = int i"
proof -
  let ?lt = "compare_suffixes (rank_array st) (gap st) n"
  let ?s = "sa_arr (pass n st)"
  from assms(3) have n: "n - 1 < n" by simp
  have r: "rank_array (pass n st) ! (?s ! (n - 1)) = rank_steps ?lt ?s (n - 1)"
    using assms(1) n by (rule rank_pass_nth)
  have e: "rank_array (pass n st) ! (?s ! (n - 1)) = int n - 1"
    using assms(2) unfolding loop_exit_def .
  have "rank_steps ?lt ?s (n - 1) = int n - 1"
    using sym[OF r] e by (rule trans)
  also have "int n - 1 = int (n - 1)"
    using assms(3) by linarith
  finally have full: "rank_steps ?lt ?s (n - 1) = int (n - 1)" .
  have "i \<le> n - 1" using assms(3) by linarith
  with full have "rank_steps ?lt ?s i = int i"
    by (rule rank_steps_full)
  moreover have "rank_array (pass n st) ! (?s ! i) = rank_steps ?lt ?s i"
    using assms(1,3) by (rule rank_pass_nth)
  ultimately show ?thesis by (rule trans[rotated])
qed

subsection \<open>The loop\<close>

lemma doubling_loop_exit:
  "loop_exit n (pass n st) \<Longrightarrow> doubling_loop n st = Some (pass n st)"
  by (subst doubling_loop.simps) (simp add: Let_def)

lemma doubling_loop_continue:
  "\<not> loop_exit n (pass n st) \<Longrightarrow>
   doubling_loop n st = doubling_loop n (double_gap (pass n st))"
  by (subst doubling_loop.simps) (simp add: Let_def)

lemma loop_head_shift: "loop_head n (double_gap (pass n st)) j = loop_head n st (Suc j)"
  by (induction j) simp_all

text \<open>What a returned state is: the state after the first pass that passes the exit test.\<close>

lemma doubling_loop_result:
  assumes "doubling_loop n st = Some st'"
  shows "\<exists>k. st' = pass n (loop_head n st k) \<and> loop_exit n st'
            \<and> (\<forall>j < k. \<not> loop_exit n (pass n (loop_head n st j)))"
proof (rule doubling_loop.raw_induct[where P = "\<lambda>n st st'. \<exists>k. st' = pass n (loop_head n st k) \<and> loop_exit n st'
            \<and> (\<forall>j < k. \<not> loop_exit n (pass n (loop_head n st j)))", OF _ assms])
  fix loop :: "nat \<Rightarrow> loop_state \<Rightarrow> loop_state option" and n st y
  assume IH: "\<And>n st y. loop n st = Some y \<Longrightarrow> \<exists>k. y = pass n (loop_head n st k) \<and> loop_exit n y
            \<and> (\<forall>j < k. \<not> loop_exit n (pass n (loop_head n st j)))"
    and body: "(let st' = pass n st in if loop_exit n st' then Some st' else loop n (double_gap st')) = Some y"
  show "\<exists>k. y = pass n (loop_head n st k) \<and> loop_exit n y
            \<and> (\<forall>j < k. \<not> loop_exit n (pass n (loop_head n st j)))"
  proof (cases "loop_exit n (pass n st)")
    case True
    with body have "y = pass n st" by (simp add: Let_def)
    with True have "y = pass n (loop_head n st 0) \<and> loop_exit n y
        \<and> (\<forall>j < 0. \<not> loop_exit n (pass n (loop_head n st j)))" by simp
    then show ?thesis by blast
  next
    case False
    with body have "loop n (double_gap (pass n st)) = Some y" by (simp add: Let_def)
    then obtain k where k: "y = pass n (loop_head n (double_gap (pass n st)) k)" "loop_exit n y"
        "\<forall>j < k. \<not> loop_exit n (pass n (loop_head n (double_gap (pass n st)) j))"
      using IH by blast
    have "\<not> loop_exit n (pass n (loop_head n st j))" if "j < Suc k" for j
    proof (cases j)
      case 0
      with False show ?thesis by simp
    next
      case (Suc j')
      with that have "j' < k" by simp
      with k(3) have "\<not> loop_exit n (pass n (loop_head n (double_gap (pass n st)) j'))" by blast
      then show ?thesis unfolding Suc loop_head_shift .
    qed
    moreover have "y = pass n (loop_head n st (Suc k))"
      using k(1) unfolding loop_head_shift .
    ultimately show ?thesis using k(2) by blast
  qed
qed

lemma doubling_loop_wf:
  assumes "doubling_loop n st = Some st'" and "wf_state n st"
  shows "wf_state n st'"
proof -
  from doubling_loop_result[OF assms(1)] obtain k where "st' = pass n (loop_head n st k)"
    by blast
  with assms(2) show ?thesis
    by (simp add: wf_pass wf_loop_head)
qed

lemma doubling_loop_fuel_Some:
  "doubling_loop_fuel k n st = Some st' \<Longrightarrow> doubling_loop n st = Some st'"
proof (induction k arbitrary: st)
  case 0
  then show ?case by simp
next
  case (Suc k)
  show ?case
  proof (cases "loop_exit n (pass n st)")
    case True
    with Suc.prems show ?thesis
      by (subst doubling_loop.simps) (simp add: Let_def)
  next
    case False
    with Suc.prems have "doubling_loop_fuel k n (double_gap (pass n st)) = Some st'"
      by (simp add: Let_def)
    then have "doubling_loop n (double_gap (pass n st)) = Some st'"
      by (rule Suc.IH)
    with False show ?thesis
      by (subst doubling_loop.simps) (simp add: Let_def)
  qed
qed

lemma build_from_fuel:
  assumes "text \<noteq> []"
    and "doubling_loop_fuel k (length text) (init_state text) =
           Some \<lparr>gap = g, sa_arr = s, rank_array = r, temp_rank_array = t, passes = p\<rparr>"
    and "kasai text s r = l"
  shows "buildSuffixArrayAndLCP text = Some \<lparr>sa = s, lcp = l\<rparr>"
  using assms(1,3) doubling_loop_fuel_Some[OF assms(2)]
  by (simp add: buildSuffixArrayAndLCP_def)

lemma build_Some_cases:
  assumes "buildSuffixArrayAndLCP text = Some res"
  obtains "text = []" and "res = \<lparr>sa = [], lcp = []\<rparr>"
  | st where "text \<noteq> []" and "doubling_loop (length text) (init_state text) = Some st"
      and "res = \<lparr>sa = sa_arr st, lcp = kasai text (sa_arr st) (rank_array st)\<rparr>"
  using assms
  by (auto simp: buildSuffixArrayAndLCP_def Let_def split: if_splits option.splits)

section \<open>Evaluation on given texts\<close>

lemma banana_loop:
  "doubling_loop_fuel 2 (length ''banana'') (init_state ''banana'') =
     Some \<lparr>gap = 2, sa_arr = [5, 3, 1, 0, 4, 2], rank_array = [3, 2, 5, 1, 4, 0],
           temp_rank_array = [3, 2, 5, 1, 4, 0], passes = 2\<rparr>"
  by code_simp

lemma banana_kasai: "kasai ''banana'' [5, 3, 1, 0, 4, 2] [3, 2, 5, 1, 4, 0] = [0, 1, 3, 0, 0, 2]"
  by code_simp

lemma banana_result:
  "buildSuffixArrayAndLCP ''banana'' = Some \<lparr>sa = [5, 3, 1, 0, 4, 2], lcp = [0, 1, 3, 0, 0, 2]\<rparr>"
  by (rule build_from_fuel[OF _ banana_loop banana_kasai]) simp

lemma mississippi_loop:
  "doubling_loop_fuel 3 (length ''mississippi'') (init_state ''mississippi'') =
     Some \<lparr>gap = 4, sa_arr = [10, 7, 4, 1, 0, 9, 8, 6, 3, 5, 2],
           rank_array = [4, 3, 10, 8, 2, 9, 7, 1, 6, 5, 0],
           temp_rank_array = [4, 3, 10, 8, 2, 9, 7, 1, 6, 5, 0], passes = 3\<rparr>"
  by code_simp

lemma mississippi_kasai:
  "kasai ''mississippi'' [10, 7, 4, 1, 0, 9, 8, 6, 3, 5, 2] [4, 3, 10, 8, 2, 9, 7, 1, 6, 5, 0]
     = [0, 1, 1, 4, 0, 0, 1, 0, 2, 1, 3]"
  by code_simp

lemma pass_single:
  "pass (Suc 0) (init_state [c]) =
     \<lparr>gap = Suc 0, sa_arr = [0], rank_array = [0], temp_rank_array = [0], passes = Suc 0\<rparr>"
  by (simp add: pass_def init_state_def std_sort_def rerank_def copy_ranks_def Let_def)

lemma exit_single: "loop_exit (Suc 0) (pass (Suc 0) (init_state [c]))"
  by (simp add: pass_single loop_exit_def)

lemma loop_single:
  "doubling_loop (Suc 0) (init_state [c]) =
     Some \<lparr>gap = Suc 0, sa_arr = [0], rank_array = [0], temp_rank_array = [0], passes = Suc 0\<rparr>"
  using doubling_loop_exit[OF exit_single, of c] by (simp only: pass_single)

lemma kasai_single: "kasai [c] [0] [0] = [0]"
  by (simp add: kasai_def kasai_step_def)

lemma high_two_loop:
  "doubling_loop_fuel 1 (length [CHR 0xFE, CHR 0xFE]) (init_state [CHR 0xFE, CHR 0xFE]) =
     Some \<lparr>gap = 1, sa_arr = [0, 1], rank_array = [0, 1], temp_rank_array = [0, 1], passes = 1\<rparr>"
  by code_simp

lemma high_two_kasai: "kasai [CHR 0xFE, CHR 0xFE] [0, 1] [0, 1] = [0, 1]"
  by code_simp

lemma high_four_loop:
  "doubling_loop_fuel 2 (length [CHR 0xFE, CHR 0xFE, CHR 0xFE, CHR 0xFE])
       (init_state [CHR 0xFE, CHR 0xFE, CHR 0xFE, CHR 0xFE]) =
     Some \<lparr>gap = 2, sa_arr = [2, 0, 1, 3], rank_array = [1, 2, 0, 3],
           temp_rank_array = [1, 2, 0, 3], passes = 2\<rparr>"
  by code_simp

lemma high_four_kasai:
  "kasai [CHR 0xFE, CHR 0xFE, CHR 0xFE, CHR 0xFE] [2, 0, 1, 3] [1, 2, 0, 3] = [0, 2, 3, 2]"
  by code_simp

text \<open>
  The bytes of the UTF-8 text \<^verbatim>\<open>"\xc3\xa9\xc3\xa9"\<close> (twice the letter e with an acute
  accent): the suffix \<^verbatim>\<open>"\xa9\xc3\xa9"\<close> at position 1 is put before its prefix
  \<^verbatim>\<open>"\xa9"\<close> at position 3, and \<open>LCP[2]\<close> is 1 where the suffixes at positions 3 and 2
  have no symbol in common.
\<close>

lemma utf8_loop:
  "doubling_loop_fuel 2 (length [CHR 0xC3, CHR 0xA9, CHR 0xC3, CHR 0xA9])
       (init_state [CHR 0xC3, CHR 0xA9, CHR 0xC3, CHR 0xA9]) =
     Some \<lparr>gap = 2, sa_arr = [1, 3, 2, 0], rank_array = [3, 0, 2, 1],
           temp_rank_array = [3, 0, 2, 1], passes = 2\<rparr>"
  by code_simp

lemma utf8_kasai:
  "kasai [CHR 0xC3, CHR 0xA9, CHR 0xC3, CHR 0xA9] [1, 3, 2, 0] [3, 0, 2, 1] = [0, 1, 1, 2]"
  by code_simp

lemma utf8_text_unsorted:
  "buildSuffixArrayAndLCP [CHR 0xC3, CHR 0xA9, CHR 0xC3, CHR 0xA9] =
     Some \<lparr>sa = [1, 3, 2, 0], lcp = [0, 1, 1, 2]\<rparr>
   \<and> \<not> suffix_le [CHR 0xC3, CHR 0xA9, CHR 0xC3, CHR 0xA9] ([1, 3, 2, 0] ! 0) ([1, 3, 2, 0] ! 1)
   \<and> suffix_lcp [CHR 0xC3, CHR 0xA9, CHR 0xC3, CHR 0xA9] ([1, 3, 2, 0] ! 1) ([1, 3, 2, 0] ! 2) = 0"
proof (intro conjI)
  show "buildSuffixArrayAndLCP [CHR 0xC3, CHR 0xA9, CHR 0xC3, CHR 0xA9] =
     Some \<lparr>sa = [1, 3, 2, 0], lcp = [0, 1, 1, 2]\<rparr>"
    by (rule build_from_fuel[OF _ utf8_loop utf8_kasai]) simp
qed (simp_all add: suffix_le_def suffix_lcp_def)

subsection \<open>A text on which the loop never exits\<close>

lemma stuck_init: "stuck (init_state [CHR 0xFF, CHR 0xFF])"
  by (simp add: stuck_def init_state_def char_to_int_def)

lemma stuck_pass:
  assumes "stuck st"
  shows "sa_arr (pass 2 st) = [0, 1]" and "rank_array (pass 2 st) = [0, 0]"
    and "temp_rank_array (pass 2 st) = [0, 0]"
proof -
  from assms obtain a b where t: "temp_rank_array st = [a, b]"
    by (auto simp: stuck_def length_Suc_conv numeral_2_eq_2)
  have cmp: "\<not> compare_suffixes (rank_array st) (gap st) 2 (Suc 0) 0"
    "\<not> compare_suffixes (rank_array st) (gap st) 2 0 (Suc 0)"
    using assms by (auto simp: stuck_def compare_suffixes_def)
  have s: "std_sort (compare_suffixes (rank_array st) (gap st) 2) [0, Suc 0] = [0, Suc 0]"
    using cmp by (simp add: std_sort_def)
  have upt: "[Suc 0..<2] = [Suc 0]" by (simp add: upt_rec)
  have r: "rerank (compare_suffixes (rank_array st) (gap st) 2) [0, Suc 0] 2 [a, b] = [0, 0]"
    using cmp by (simp add: rerank_def rerank_step_def upt)
  have sa0: "sa_arr st = [0, Suc 0]" using assms by (simp add: stuck_def)
  show "sa_arr (pass 2 st) = [0, 1]"
    by (simp add: pass_def Let_def sa0 s)
  show "temp_rank_array (pass 2 st) = [0, 0]"
    by (simp add: pass_def Let_def sa0 s t r)
  obtain x y where rk: "rank_array st = [x, y]"
    using assms by (auto simp: stuck_def)
  have upt2: "[0..<2] = [0, 1]" by (simp add: upt_rec)
  show "rank_array (pass 2 st) = [0, 0]"
    by (simp add: pass_def Let_def sa0 s t r rk[symmetric]) (simp add: rk copy_ranks_def upt2)
qed

lemma stuck_step:
  assumes "stuck st"
  shows "\<not> loop_exit 2 (pass 2 st)" and "stuck (double_gap (pass 2 st))"
proof -
  show "\<not> loop_exit 2 (pass 2 st)"
    by (simp add: loop_exit_def stuck_pass[OF assms])
  have "1 \<le> gap st" using assms by (auto simp: stuck_def)
  then show "stuck (double_gap (pass 2 st))"
    by (simp add: stuck_def double_gap_def stuck_pass[OF assms] gap_pass)
qed

lemma stuck_never_returns:
  assumes "doubling_loop n st = Some st'"
  shows "\<not> (n = 2 \<and> stuck st)"
proof (rule doubling_loop.raw_induct[where P = "\<lambda>n st st'. \<not> (n = 2 \<and> stuck st)", OF _ assms])
  fix loop :: "nat \<Rightarrow> loop_state \<Rightarrow> loop_state option" and n st y
  assume IH: "\<And>n st y. loop n st = Some y \<Longrightarrow> \<not> (n = 2 \<and> stuck st)"
    and body: "(let st' = pass n st in if loop_exit n st' then Some st' else loop n (double_gap st')) = Some y"
  show "\<not> (n = 2 \<and> stuck st)"
  proof
    assume a: "n = 2 \<and> stuck st"
    then have "\<not> loop_exit n (pass n st)" using stuck_step(1) by simp
    with body have "loop n (double_gap (pass n st)) = Some y" by (simp add: Let_def)
    then have "\<not> (n = 2 \<and> stuck (double_gap (pass n st)))" by (rule IH)
    with a stuck_step(2) show False by simp
  qed
qed

lemma stuck_loop_none: "doubling_loop 2 (init_state [CHR 0xFF, CHR 0xFF]) = None"
  using stuck_never_returns[of 2 "init_state [CHR 0xFF, CHR 0xFF]"] stuck_init
  by (cases "doubling_loop 2 (init_state [CHR 0xFF, CHR 0xFF])") auto

section \<open>Texts of seven-bit symbols\<close>

text \<open>
  Where every byte of the text is below \<^verbatim>\<open>0x80\<close>, the initial ranks are not negative
  and the sentinel \<open>-1\<close> is below every rank. Under this condition the rank table at
  the head of the pass with gap \<open>g\<close> orders the positions as the first \<open>g\<close> symbols of
  their suffixes do, the pass sorts by the first \<open>2 * g\<close> symbols, and the loop exits at
  the latest when \<open>2 * g\<close> reaches the length of the text.
\<close>

subsection \<open>Lexicographic order\<close>

lemma lex_le_iff: "lex_le xs ys \<longleftrightarrow> xs \<le> ys"
  by (induction xs ys rule: lex_le.induct) auto

lemma take_less_mono:
  fixes a b :: "int list"
  shows "take g a < take g b \<Longrightarrow> g \<le> g' \<Longrightarrow> take g' a < take g' b"
proof (induction g arbitrary: a b g')
  case 0
  then show ?case by simp
next
  case (Suc g)
  from Suc.prems(2) obtain g'' where g': "g' = Suc g''" "g \<le> g''"
    by (cases g') auto
  show ?case
  proof (cases a)
    case Nil
    with Suc.prems(1) obtain y b' where "b = y # b'" by (cases b) auto
    with Nil g' show ?thesis by simp
  next
    case (Cons x a')
    with Suc.prems(1) obtain y b' where b: "b = y # b'" by (cases b) auto
    from Suc.prems(1) Cons b have "x < y \<or> x = y \<and> take g a' < take g b'" by simp
    then show ?thesis
    proof
      assume "x < y"
      with Cons b g' show ?thesis by simp
    next
      assume "x = y \<and> take g a' < take g b'"
      with Suc.IH[of a' b' g''] g' have "x = y \<and> take g'' a' < take g'' b'" by simp
      with Cons b g' show ?thesis by simp
    qed
  qed
qed

lemma take_less_imp_less:
  fixes a b :: "int list"
  assumes "take g a < take g b"
  shows "a < b"
proof -
  have "max g (max (length a) (length b)) \<ge> g" by simp
  from take_less_mono[OF assms this] show ?thesis by simp
qed

lemma take_less_split:
  fixes a b :: "int list"
  shows "take g a = take g b \<Longrightarrow>
         take (g + g') a < take (g + g') b \<longleftrightarrow> take g' (drop g a) < take g' (drop g b)"
proof (induction g arbitrary: a b)
  case 0
  then show ?case by simp
next
  case (Suc g)
  show ?case
  proof (cases a)
    case Nil
    with Suc.prems have "b = []" by (cases b) auto
    with Nil show ?thesis by simp
  next
    case (Cons x a')
    with Suc.prems obtain b' where b: "b = x # b'" "take g a' = take g b'"
      by (cases b) auto
    from Suc.IH[OF b(2)] Cons b(1) show ?thesis by simp
  qed
qed

subsection \<open>Keys\<close>

lemma prefix_key_beyond: "length text \<le> i \<Longrightarrow> prefix_key text g i = []"
  by (simp add: prefix_key_def)

lemma prefix_key_inside: "i < length text \<Longrightarrow> 0 < g \<Longrightarrow> [] < prefix_key text g i"
  by (cases "drop i (map char_to_int text)"; cases g) (simp_all add: prefix_key_def)

lemma prefix_key_split:
  assumes "prefix_key text g i = prefix_key text g j"
  shows "prefix_key text (g * 2) i < prefix_key text (g * 2) j
         \<longleftrightarrow> prefix_key text g (i + g) < prefix_key text g (j + g)"
proof -
  have "g * 2 = g + g" by simp
  moreover have "drop g (drop i (map char_to_int text)) = drop (i + g) (map char_to_int text)"
    "drop g (drop j (map char_to_int text)) = drop (j + g) (map char_to_int text)"
    by (simp_all add: add.commute)
  ultimately show ?thesis
    using take_less_split[OF assms[unfolded prefix_key_def], of g]
    by (simp only: prefix_key_def)
qed

lemma prefix_key_whole:
  "length text \<le> g \<Longrightarrow> prefix_key text g i = drop i (map char_to_int text)"
  by (simp add: prefix_key_def)

lemma prefix_key_less_mono:
  "prefix_key text g i < prefix_key text g j \<Longrightarrow> g \<le> g' \<Longrightarrow>
   prefix_key text g' i < prefix_key text g' j"
  unfolding prefix_key_def by (rule take_less_mono)

lemma rank_rep_eq:
  assumes "rank_rep text g r" and "i < length text" and "j < length text"
  shows "r ! i = r ! j \<longleftrightarrow> prefix_key text g i = prefix_key text g j"
proof -
  from assms have "r ! i < r ! j \<longleftrightarrow> prefix_key text g i < prefix_key text g j"
    and "r ! j < r ! i \<longleftrightarrow> prefix_key text g j < prefix_key text g i"
    by (simp_all add: rank_rep_def)
  then show ?thesis
    by (metis less_irrefl linorder_neqE)
qed

text \<open>The comparator compares the first \<open>2 * gap\<close> symbols.\<close>

lemma compare_suffixes_key:
  assumes rep: "rank_rep text g r" and g: "0 < g" and i: "i < length text" and j: "j < length text"
  shows "compare_suffixes r g (length text) i j
         \<longleftrightarrow> prefix_key text (g * 2) i < prefix_key text (g * 2) j"
proof (cases "r ! i = r ! j")
  case False
  then have ne: "prefix_key text g i \<noteq> prefix_key text g j"
    using rank_rep_eq[OF rep i j] by simp
  have small: "r ! i < r ! j \<longleftrightarrow> prefix_key text g i < prefix_key text g j"
    using rep i j by (simp add: rank_rep_def)
  have "prefix_key text g i < prefix_key text g j
        \<longleftrightarrow> prefix_key text (g * 2) i < prefix_key text (g * 2) j"
  proof
    assume "prefix_key text g i < prefix_key text g j"
    then show "prefix_key text (g * 2) i < prefix_key text (g * 2) j"
      by (rule prefix_key_less_mono) simp
  next
    assume big: "prefix_key text (g * 2) i < prefix_key text (g * 2) j"
    show "prefix_key text g i < prefix_key text g j"
    proof (rule ccontr)
      assume "\<not> prefix_key text g i < prefix_key text g j"
      with ne have "prefix_key text g j < prefix_key text g i" by simp
      then have "prefix_key text (g * 2) j < prefix_key text (g * 2) i"
        by (rule prefix_key_less_mono) simp
      with big show False by simp
    qed
  qed
  with small False show ?thesis
    by (simp add: compare_suffixes_def)
next
  case True
  then have eq: "prefix_key text g i = prefix_key text g j"
    using rank_rep_eq[OF rep i j] by simp
  let ?nx = "\<lambda>k. if k + g < length text then r ! (k + g) else - 1"
  have nx: "?nx i < ?nx j \<longleftrightarrow> prefix_key text g (i + g) < prefix_key text g (j + g)"
  proof (cases "i + g < length text")
    case ig: True
    show ?thesis
    proof (cases "j + g < length text")
      case True
      with ig rep show ?thesis by (simp add: rank_rep_def)
    next
      case False
      then have "prefix_key text g (j + g) = []" by (simp add: prefix_key_beyond)
      moreover have "0 \<le> r ! (i + g)" using rep ig by (simp add: rank_rep_def)
      ultimately show ?thesis using ig False by simp
    qed
  next
    case ig: False
    then have e: "prefix_key text g (i + g) = []" by (simp add: prefix_key_beyond)
    show ?thesis
    proof (cases "j + g < length text")
      case True
      then have "[] < prefix_key text g (j + g)" using g by (rule prefix_key_inside)
      moreover have "0 \<le> r ! (j + g)" using rep True by (simp add: rank_rep_def)
      ultimately show ?thesis using ig True e by simp
    next
      case False
      then have "prefix_key text g (j + g) = []" by (simp add: prefix_key_beyond)
      with ig False e show ?thesis by simp
    qed
  qed
  have "compare_suffixes r g (length text) i j \<longleftrightarrow> ?nx i < ?nx j"
    using True by (simp add: compare_suffixes_def Let_def)
  with nx prefix_key_split[OF eq] show ?thesis by simp
qed

lemma char_to_int_seven_bit:
  assumes "(of_char c :: nat) < 128"
  shows "char_to_int c = int (of_char c)"
proof -
  have "(of_char c :: 8 word) = of_nat (of_char c)"
    by (simp only: of_nat_of_char)
  then have "char_to_int c = signed_take_bit 7 (int (of_char c))"
    unfolding char_to_int_def by (simp add: signed_of_nat)
  also have "\<dots> = int (of_char c)"
    using assms by (intro signed_take_bit_int_eq_self) simp_all
  finally show ?thesis .
qed

lemma seven_bit_nonneg: "seven_bit text \<Longrightarrow> i < length text \<Longrightarrow> 0 \<le> char_to_int (text ! i)"
  by (simp add: seven_bit_def char_to_int_seven_bit)

subsection \<open>The invariant of the loop\<close>

lemma rank_steps_key:
  fixes f :: "nat \<Rightarrow> 'b :: linorder"
  assumes sorted: "sorted (map f s)"
    and lt: "\<And>k. Suc k < length s \<Longrightarrow> lt (s ! k) (s ! Suc k) \<longleftrightarrow> f (s ! k) < f (s ! Suc k)"
  shows "a \<le> b \<Longrightarrow> b < length s \<Longrightarrow>
         rank_steps lt s a < rank_steps lt s b \<longleftrightarrow> f (s ! a) < f (s ! b)"
proof (induction b)
  case 0
  then show ?case by simp
next
  case (Suc b)
  show ?case
  proof (cases "a = Suc b")
    case True
    then show ?thesis by simp
  next
    case False
    with Suc.prems have ab: "a \<le> b" and b: "b < length s" by simp_all
    have IH: "rank_steps lt s a < rank_steps lt s b \<longleftrightarrow> f (s ! a) < f (s ! b)"
      using ab b by (rule Suc.IH)
    have mono: "rank_steps lt s a \<le> rank_steps lt s b"
      using ab by (rule rank_steps_mono)
    have le1: "f (s ! a) \<le> f (s ! b)"
      using sorted ab b by (simp add: sorted_iff_nth_mono)
    have le2: "f (s ! b) \<le> f (s ! Suc b)"
      using sorted Suc.prems(2) by (simp add: sorted_iff_nth_mono)
    show ?thesis
    proof (cases "f (s ! b) < f (s ! Suc b)")
      case True
      then have "rank_steps lt s (Suc b) = rank_steps lt s b + 1"
        using lt[OF Suc.prems(2)] by simp
      with mono True le1 show ?thesis by simp
    next
      case False
      then have "rank_steps lt s (Suc b) = rank_steps lt s b"
        using lt[OF Suc.prems(2)] by simp
      moreover have "f (s ! Suc b) = f (s ! b)"
        using False le2 by simp
      ultimately show ?thesis using IH by simp
    qed
  qed
qed

lemma loop_inv_pass_lt:
  assumes inv: "loop_inv text st" and i: "i < length text" and j: "j < length text"
  shows "compare_suffixes (rank_array st) (gap st) (length text) i j
         \<longleftrightarrow> prefix_key text (gap st * 2) i < prefix_key text (gap st * 2) j"
  using inv i j by (intro compare_suffixes_key) (simp_all add: loop_inv_def)

lemma loop_inv_pass_sorted:
  assumes inv: "loop_inv text st"
  shows "sorted (map (prefix_key text (gap st * 2)) (sa_arr (pass (length text) st)))"
proof -
  have "set (sa_arr st) = {..<length text}"
    using inv by (intro wf_state_perm(2)) (simp add: loop_inv_def)
  then have "\<forall>a \<in> set (sa_arr st). \<forall>b \<in> set (sa_arr st).
      compare_suffixes (rank_array st) (gap st) (length text) a b
      \<longleftrightarrow> prefix_key text (gap st * 2) a < prefix_key text (gap st * 2) b"
    using loop_inv_pass_lt[OF inv] by simp
  then show ?thesis
    unfolding sa_arr_pass by (rule sorted_std_sort)
qed

lemma loop_inv_pass_nth:
  assumes inv: "loop_inv text st" and a: "a < length text"
  shows "sa_arr (pass (length text) st) ! a < length text"
proof -
  have wf: "wf_state (length text) (pass (length text) st)"
    using inv by (intro wf_pass) (simp add: loop_inv_def)
  from wf_state_perm(2,3)[OF wf] a show ?thesis
    by (metis lessThan_iff nth_mem)
qed

lemma loop_inv_pass_steps:
  assumes inv: "loop_inv text st" and ab: "a \<le> b" and b: "b < length text"
  shows "rank_steps (compare_suffixes (rank_array st) (gap st) (length text))
            (sa_arr (pass (length text) st)) a
          < rank_steps (compare_suffixes (rank_array st) (gap st) (length text))
            (sa_arr (pass (length text) st)) b
         \<longleftrightarrow> prefix_key text (gap st * 2) (sa_arr (pass (length text) st) ! a)
              < prefix_key text (gap st * 2) (sa_arr (pass (length text) st) ! b)"
proof -
  let ?s = "sa_arr (pass (length text) st)"
  have wf: "wf_state (length text) (pass (length text) st)"
    using inv by (intro wf_pass) (simp add: loop_inv_def)
  have len: "length ?s = length text"
    using wf by (rule wf_state_perm(3))
  show ?thesis
  proof (rule rank_steps_key[OF loop_inv_pass_sorted[OF inv] _ ab])
    show "b < length ?s" using b len by simp
  next
    fix k assume "Suc k < length ?s"
    then have "Suc k < length text" "k < length text" using len by simp_all
    then show "compare_suffixes (rank_array st) (gap st) (length text) (?s ! k) (?s ! Suc k)
       \<longleftrightarrow> prefix_key text (gap st * 2) (?s ! k) < prefix_key text (gap st * 2) (?s ! Suc k)"
      using loop_inv_pass_nth[OF inv] by (intro loop_inv_pass_lt[OF inv]) simp_all
  qed
qed

lemma loop_inv_pass_rank_rep:
  assumes inv: "loop_inv text st"
  shows "rank_rep text (gap st * 2) (rank_array (pass (length text) st))"
proof -
  let ?n = "length text"
  let ?s = "sa_arr (pass ?n st)"
  let ?r = "rank_array (pass ?n st)"
  let ?lt = "compare_suffixes (rank_array st) (gap st) ?n"
  let ?f = "prefix_key text (gap st * 2)"
  have wf0: "wf_state ?n st" using inv by (simp add: loop_inv_def)
  have wf: "wf_state ?n (pass ?n st)" using wf0 by (rule wf_pass)
  have len: "length ?s = ?n" using wf by (rule wf_state_perm(3))
  have set: "set ?s = {..<?n}" using wf by (rule wf_state_perm(2))
  have pos: "\<exists>a < ?n. ?s ! a = i" if "i < ?n" for i
  proof -
    from that set have "i \<in> set ?s" by simp
    then show ?thesis unfolding in_set_conv_nth len by blast
  qed
  have rk: "?r ! (?s ! a) = rank_steps ?lt ?s a" if "a < ?n" for a
    using wf0 that by (rule rank_pass_nth)
  have sorted: "sorted (map ?f ?s)" using inv by (rule loop_inv_pass_sorted)
  have nonneg: "0 \<le> ?r ! i" if "i < ?n" for i
  proof -
    from pos[OF that] obtain a where "a < ?n" "?s ! a = i" by blast
    with rk[of a] show ?thesis by (simp add: rank_steps_nonneg)
  qed
  have order: "?r ! i < ?r ! j \<longleftrightarrow> ?f i < ?f j" if i: "i < ?n" and j: "j < ?n" for i j
  proof -
    from pos[OF i] obtain a where a: "a < ?n" "?s ! a = i" by blast
    from pos[OF j] obtain b where b: "b < ?n" "?s ! b = j" by blast
    have ri: "?r ! i = rank_steps ?lt ?s a" using rk[OF a(1)] a(2) by simp
    have rj: "?r ! j = rank_steps ?lt ?s b" using rk[OF b(1)] b(2) by simp
    show ?thesis
    proof (cases "a \<le> b")
      case True
      from loop_inv_pass_steps[OF inv True b(1)] show ?thesis
        unfolding ri rj a(2) b(2) .
    next
      case False
      then have ba: "b \<le> a" by simp
      then have "rank_steps ?lt ?s b \<le> rank_steps ?lt ?s a" by (rule rank_steps_mono)
      moreover have "?f (?s ! b) \<le> ?f (?s ! a)"
        using sorted ba a(1) len by (simp add: sorted_iff_nth_mono)
      ultimately show ?thesis unfolding ri rj using a(2) b(2) by auto
    qed
  qed
  show ?thesis
    unfolding rank_rep_def using nonneg order by blast
qed

lemma loop_inv_step:
  assumes "loop_inv text st"
  shows "loop_inv text (double_gap (pass (length text) st))"
proof -
  have "wf_state (length text) (pass (length text) st)"
    using assms by (intro wf_pass) (simp add: loop_inv_def)
  moreover have "1 \<le> gap st" using assms by (simp add: loop_inv_def)
  ultimately show ?thesis
    using loop_inv_pass_rank_rep[OF assms]
    by (simp add: loop_inv_def double_gap_def wf_state_def gap_pass)
qed

lemma loop_inv_init:
  assumes "seven_bit text"
  shows "loop_inv text (init_state text)"
proof -
  have key: "prefix_key text (Suc 0) i = [char_to_int (text ! i)]" if "i < length text" for i
    using that by (simp add: prefix_key_def take_Suc_conv_app_nth[of 0] drop_map hd_drop_conv_nth
        flip: Cons_nth_drop_Suc)
  have "rank_rep text (Suc 0) (map char_to_int text)"
    unfolding rank_rep_def using seven_bit_nonneg[OF assms] by (simp add: key)
  then show ?thesis
    using wf_init_state[of "text"] by (simp add: loop_inv_def init_state_def)
qed

lemma loop_inv_loop_head:
  "loop_inv text st \<Longrightarrow> loop_inv text (loop_head (length text) st k)"
  by (induction k) (simp_all add: loop_inv_step)

subsection \<open>Exit of the loop\<close>

lemma suffix_inj:
  assumes "drop i xs = drop j xs" and "i < length xs" and "j < length xs"
  shows "i = j"
proof -
  from assms(1) have "length (drop i xs) = length (drop j xs)" by simp
  with assms(2,3) show ?thesis by simp
qed

lemma loop_inv_exit:
  assumes inv: "loop_inv text st" and ne: "text \<noteq> []" and big: "length text \<le> gap st * 2"
  shows "loop_exit (length text) (pass (length text) st)"
proof -
  let ?n = "length text"
  let ?s = "sa_arr (pass ?n st)"
  let ?lt = "compare_suffixes (rank_array st) (gap st) ?n"
  let ?f = "prefix_key text (gap st * 2)"
  have wf0: "wf_state ?n st" using inv by (simp add: loop_inv_def)
  have wf: "wf_state ?n (pass ?n st)" using wf0 by (rule wf_pass)
  have len: "length ?s = ?n" using wf by (rule wf_state_perm(3))
  have dist: "distinct ?s" using wf by (rule wf_state_perm(1))
  have sorted: "sorted (map ?f ?s)" using inv by (rule loop_inv_pass_sorted)
  have strict: "?lt (?s ! k) (?s ! Suc k)" if k: "Suc k < ?n" for k
  proof -
    from k have k': "k < ?n" by simp
    have in1: "?s ! k < ?n" and in2: "?s ! Suc k < ?n"
      using loop_inv_pass_nth[OF inv] k k' by simp_all
    have "?s ! k \<noteq> ?s ! Suc k"
      using dist k len by (simp add: nth_eq_iff_index_eq)
    then have "drop (?s ! k) (map char_to_int text) \<noteq> drop (?s ! Suc k) (map char_to_int text)"
      using suffix_inj[of "?s ! k" "map char_to_int text" "?s ! Suc k"] in1 in2 by auto
    then have "?f (?s ! k) \<noteq> ?f (?s ! Suc k)"
      using big by (simp add: prefix_key_whole)
    moreover have "?f (?s ! k) \<le> ?f (?s ! Suc k)"
      using sorted k len by (simp add: sorted_iff_nth_mono)
    ultimately have "?f (?s ! k) < ?f (?s ! Suc k)" by simp
    then show ?thesis
      using loop_inv_pass_lt[OF inv in1 in2] by simp
  qed
  from ne have n: "?n - 1 < ?n" by simp
  have "rank_steps ?lt ?s (?n - 1) = int (?n - 1)"
    using strict n by (rule rank_steps_strict)
  moreover have "rank_array (pass ?n st) ! (?s ! (?n - 1)) = rank_steps ?lt ?s (?n - 1)"
    using wf0 n by (rule rank_pass_nth)
  moreover have "int (?n - 1) = int ?n - 1" using n by linarith
  ultimately show ?thesis
    unfolding loop_exit_def by (simp only:)
qed

lemma loop_inv_terminates:
  assumes "loop_inv text st" and "text \<noteq> []"
  shows "\<exists>st'. doubling_loop (length text) st = Some st'"
  using assms(1)
proof (induction "length text - gap st" arbitrary: st rule: less_induct)
  case less
  show ?case
  proof (cases "loop_exit (length text) (pass (length text) st)")
    case True
    then show ?thesis by (simp add: doubling_loop_exit)
  next
    case False
    let ?st = "double_gap (pass (length text) st)"
    from False loop_inv_exit[OF less.prems assms(2)] have small: "gap st * 2 < length text"
      by (cases "length text \<le> gap st * 2") simp_all
    have g: "1 \<le> gap st" using less.prems by (simp add: loop_inv_def)
    have "gap ?st = gap st * 2" by (simp add: double_gap_def gap_pass)
    with small g have "length text - gap ?st < length text - gap st" by simp
    moreover have "loop_inv text ?st" using less.prems by (rule loop_inv_step)
    ultimately have "\<exists>st'. doubling_loop (length text) ?st = Some st'"
      by (rule less.hyps)
    with False show ?thesis by (simp add: doubling_loop_continue)
  qed
qed

lemma loop_inv_sorted_at_exit:
  assumes inv: "loop_inv text st" and ex: "loop_exit (length text) (pass (length text) st)"
    and ab: "a < b" and b: "b < length text"
  shows "drop (sa_arr (pass (length text) st) ! a) (map char_to_int text)
          < drop (sa_arr (pass (length text) st) ! b) (map char_to_int text)"
proof -
  let ?n = "length text"
  let ?s = "sa_arr (pass ?n st)"
  let ?lt = "compare_suffixes (rank_array st) (gap st) ?n"
  have wf0: "wf_state ?n st" using inv by (simp add: loop_inv_def)
  from ab b have a: "a < ?n" by simp
  have ra: "rank_steps ?lt ?s a = int a"
    using rank_pass_nth[OF wf0 a] pass_exit_inverse[OF wf0 ex a] by simp
  have rb: "rank_steps ?lt ?s b = int b"
    using rank_pass_nth[OF wf0 b] pass_exit_inverse[OF wf0 ex b] by simp
  from ab have "rank_steps ?lt ?s a < rank_steps ?lt ?s b"
    unfolding ra rb by simp
  moreover have "a \<le> b" using ab by simp
  ultimately have "prefix_key text (gap st * 2) (?s ! a) < prefix_key text (gap st * 2) (?s ! b)"
    using loop_inv_pass_steps[OF inv _ b] by blast
  then show ?thesis
    unfolding prefix_key_def by (rule take_less_imp_less)
qed

lemma seven_bit_final:
  assumes "seven_bit text" and "doubling_loop (length text) (init_state text) = Some st"
  shows "final_ok text st"
proof -
  let ?n = "length text"
  from doubling_loop_result[OF assms(2)] obtain k
    where k: "st = pass ?n (loop_head ?n (init_state text) k)" and ex: "loop_exit ?n st"
    by blast
  have inv: "loop_inv text (loop_head ?n (init_state text) k)"
    using loop_inv_init[OF assms(1)] by (rule loop_inv_loop_head)
  then have wf0: "wf_state ?n (loop_head ?n (init_state text) k)"
    by (simp add: loop_inv_def)
  have "wf_state ?n st" unfolding k using wf0 by (rule wf_pass)
  moreover have "\<forall>i < ?n. rank_array st ! (sa_arr st ! i) = int i"
    using pass_exit_inverse[OF wf0] ex unfolding k by blast
  moreover have "\<forall>a b. a < b \<and> b < ?n \<longrightarrow>
      drop (sa_arr st ! a) (map char_to_int text) < drop (sa_arr st ! b) (map char_to_int text)"
    using loop_inv_sorted_at_exit[OF inv] ex unfolding k by blast
  ultimately show ?thesis unfolding final_ok_def by blast
qed

lemma seven_bit_returns:
  assumes "seven_bit text"
  shows "\<exists>res. buildSuffixArrayAndLCP text = Some res"
proof (cases "text = []")
  case True
  then show ?thesis by (simp add: buildSuffixArrayAndLCP_def)
next
  case False
  from loop_inv_terminates[OF loop_inv_init[OF assms] False]
  obtain st where "doubling_loop (length text) (init_state text) = Some st" by blast
  with False show ?thesis by (simp add: buildSuffixArrayAndLCP_def)
qed

text \<open>
  The passes that run on a text of seven-bit symbols have a gap below the length of the
  text (or the gap 1): on a text of at most \<open>2^30\<close> symbols neither \<^verbatim>\<open>gap *= 2\<close> nor
  \<^verbatim>\<open>i + gap\<close> leaves the range of a 32-bit \<^verbatim>\<open>int\<close>.
\<close>

lemma gap_loop_head: "gap (loop_head n st k) = gap st * 2 ^ k"
  by (induction k) (simp_all add: double_gap_def gap_pass)

lemma seven_bit_gap_bound:
  assumes sb: "seven_bit t" and ne: "t \<noteq> []"
    and run: "\<forall>j < k. \<not> loop_exit (length t) (pass (length t) (loop_head (length t) (init_state t) j))"
  shows "gap (loop_head (length t) (init_state t) k) < max 2 (length t)"
proof (cases k)
  case 0
  then show ?thesis by (simp add: init_state_def)
next
  case (Suc j)
  let ?st = "loop_head (length t) (init_state t) j"
  have inv: "loop_inv t ?st"
    using loop_inv_init[OF sb] by (rule loop_inv_loop_head)
  from run Suc have "\<not> loop_exit (length t) (pass (length t) ?st)" by simp
  with loop_inv_exit[OF inv ne] have "gap ?st * 2 < length t"
    by (cases "length t \<le> gap ?st * 2") simp_all
  then show ?thesis
    by (simp add: Suc double_gap_def gap_pass)
qed

subsection \<open>Longest common prefixes\<close>

lemma lcp_len_commute: "lcp_len xs ys = lcp_len ys xs"
  by (induction xs ys rule: lcp_len.induct) auto

lemma lcp_len_le_length: "lcp_len xs ys \<le> length xs"
  by (induction xs ys rule: lcp_len.induct) auto

lemma lcp_len_map:
  "inj_on f (set xs \<union> set ys) \<Longrightarrow> lcp_len (map f xs) (map f ys) = lcp_len xs ys"
proof (induction xs ys rule: lcp_len.induct)
  case (1 x xs y ys)
  then have "inj_on f (set xs \<union> set ys)"
    by (auto simp: inj_on_def)
  with 1 show ?case by (auto simp: inj_on_def)
qed simp_all

lemma lcp_len_step:
  "k \<le> lcp_len xs ys \<Longrightarrow>
   k < lcp_len xs ys \<longleftrightarrow> k < length xs \<and> k < length ys \<and> xs ! k = ys ! k"
proof (induction xs ys arbitrary: k rule: lcp_len.induct)
  case (1 x xs y ys)
  show ?case
  proof (cases k)
    case 0
    then show ?thesis by simp
  next
    case (Suc k')
    with "1.prems" have xy: "x = y" by (cases "x = y") simp_all
    with "1.prems" Suc have "k' \<le> lcp_len xs ys" by simp
    with "1.IH"[OF xy] have "k' < lcp_len xs ys \<longleftrightarrow> k' < length xs \<and> k' < length ys \<and> xs ! k' = ys ! k'"
      by simp
    with xy Suc show ?thesis by simp
  qed
qed simp_all

lemma lcp_len_between:
  fixes a b c :: "'a :: linorder list"
  shows "a \<le> b \<Longrightarrow> b \<le> c \<Longrightarrow> lcp_len a c \<le> lcp_len b c"
proof (induction a arbitrary: b c)
  case Nil
  then show ?case by simp
next
  case (Cons x a')
  from Cons.prems(1) obtain y b' where b: "b = y # b'" by (cases b) auto
  from Cons.prems(2) b obtain z c' where c: "c = z # c'" by (cases c) auto
  show ?case
  proof (cases "x = z")
    case False
    with c show ?thesis by simp
  next
    case True
    from Cons.prems b c have "x \<le> y" "y \<le> z" by auto
    with True have xy: "x = y" "y = z" by simp_all
    with Cons.prems b c have "a' \<le> b'" "b' \<le> c'" by simp_all
    then have "lcp_len a' c' \<le> lcp_len b' c'" by (rule Cons.IH)
    with xy b c show ?thesis by simp
  qed
qed

lemma lcp_len_tail:
  assumes "i < length xs" and "p < length xs" and "0 < lcp_len (drop i xs) (drop p xs)"
  shows "xs ! i = xs ! p"
    and "lcp_len (drop (Suc i) xs) (drop (Suc p) xs) = lcp_len (drop i xs) (drop p xs) - 1"
proof -
  have di: "drop i xs = xs ! i # drop (Suc i) xs" using assms(1) by (simp add: Cons_nth_drop_Suc)
  have dp: "drop p xs = xs ! p # drop (Suc p) xs" using assms(2) by (simp add: Cons_nth_drop_Suc)
  from assms(3) show eq: "xs ! i = xs ! p"
    unfolding di dp by (simp split: if_splits)
  have "lcp_len (xs ! i # drop (Suc i) xs) (xs ! p # drop (Suc p) xs)
        = Suc (lcp_len (drop (Suc i) xs) (drop (Suc p) xs))"
    using eq by simp
  then have "lcp_len (drop i xs) (drop p xs) = Suc (lcp_len (drop (Suc i) xs) (drop (Suc p) xs))"
    by (simp only: di[symmetric] dp[symmetric])
  then show "lcp_len (drop (Suc i) xs) (drop (Suc p) xs) = lcp_len (drop i xs) (drop p xs) - 1"
    by simp
qed

lemma suffix_less_tail:
  fixes xs :: "'a :: linorder list"
  assumes "i < length xs" and "p < length xs" and "xs ! p = xs ! i" and "drop p xs < drop i xs"
  shows "drop (Suc p) xs < drop (Suc i) xs"
proof -
  have di: "drop i xs = xs ! i # drop (Suc i) xs" using assms(1) by (simp add: Cons_nth_drop_Suc)
  have dp: "drop p xs = xs ! p # drop (Suc p) xs" using assms(2) by (simp add: Cons_nth_drop_Suc)
  from assms(4) show ?thesis
    unfolding di dp using assms(3) by simp
qed

subsection \<open>Kasai's pass on a sorted suffix array\<close>

lemma lcp_extend_exact:
  "0 \<le> h \<Longrightarrow> nat h \<le> lcp_len (drop i t) (drop prev t) \<Longrightarrow>
   lcp_extend t i prev h = int (lcp_len (drop i t) (drop prev t))"
proof (induction t i prev h rule: lcp_extend.induct)
  case (1 t i prev h)
  let ?L = "lcp_len (drop i t) (drop prev t)"
  have step: "nat h < ?L \<longleftrightarrow>
      nat h < length (drop i t) \<and> nat h < length (drop prev t)
      \<and> drop i t ! nat h = drop prev t ! nat h"
    using "1.prems"(2) by (rule lcp_len_step)
  have idx: "nat (int i + h) = i + nat h" "nat (int prev + h) = prev + nat h"
    using "1.prems"(1) by simp_all
  let ?c = "int i + h < int (length t) \<and> int prev + h < int (length t)
         \<and> t ! nat (int i + h) = t ! nat (int prev + h)"
  have cond: "?c \<longleftrightarrow> nat h < ?L"
  proof -
    have "?c \<longleftrightarrow> i + nat h < length t \<and> prev + nat h < length t
        \<and> t ! (i + nat h) = t ! (prev + nat h)"
      using "1.prems"(1) unfolding idx by (simp add: nat_less_iff[symmetric] flip: idx) 
    also have "\<dots> \<longleftrightarrow> nat h < ?L"
      unfolding step by auto
    finally show ?thesis .
  qed
  show ?case
  proof (cases ?c)
    case True
    then have "nat h < ?L" using cond by simp
    then have "nat (h + 1) \<le> ?L" using "1.prems"(1) by simp
    moreover have "0 \<le> h + 1" using "1.prems"(1) by simp
    ultimately have "lcp_extend t i prev (h + 1) = int ?L"
      using True by (intro "1.IH") simp_all
    with True show ?thesis by (subst lcp_extend.simps) simp
  next
    case False
    then have "\<not> nat h < ?L" using cond by simp
    with "1.prems" have "h = int ?L" by simp
    with False show ?thesis by (subst lcp_extend.simps) simp
  qed
qed

lemma final_ok_nth:
  assumes "final_ok t st" and "a < length t"
  shows "sa_arr st ! a < length t"
proof -
  have wf: "wf_state (length t) st" using assms(1) by (simp add: final_ok_def)
  from wf_state_perm(2,3)[OF wf] assms(2) show ?thesis
    by (metis lessThan_iff nth_mem)
qed

lemma final_ok_rank:
  assumes "final_ok t st" and "i < length t"
  shows "0 \<le> rank_array st ! i" and "nat (rank_array st ! i) < length t"
    and "sa_arr st ! nat (rank_array st ! i) = i"
proof -
  have wf: "wf_state (length t) st" using assms(1) by (simp add: final_ok_def)
  from wf_state_perm(2,3)[OF wf] assms(2) obtain a where a: "a < length t" "sa_arr st ! a = i"
    by (metis in_set_conv_nth lessThan_iff)
  have "rank_array st ! (sa_arr st ! a) = int a"
    using assms(1) a(1) by (simp add: final_ok_def)
  then have r: "rank_array st ! i = int a" using a(2) by simp
  show "0 \<le> rank_array st ! i" using r by simp
  show "nat (rank_array st ! i) < length t" using r a(1) by simp
  show "sa_arr st ! nat (rank_array st ! i) = i" using r a(2) by simp
qed

lemma final_ok_less:
  assumes "final_ok t st" and "a < length t" and "b < length t"
  shows "drop (sa_arr st ! a) (map char_to_int t) < drop (sa_arr st ! b) (map char_to_int t)
         \<longleftrightarrow> a < b"
proof
  assume "a < b"
  with assms(1,3) show "drop (sa_arr st ! a) (map char_to_int t) < drop (sa_arr st ! b) (map char_to_int t)"
    by (simp add: final_ok_def)
next
  assume lt: "drop (sa_arr st ! a) (map char_to_int t) < drop (sa_arr st ! b) (map char_to_int t)"
  show "a < b"
  proof (rule ccontr)
    assume "\<not> a < b"
    then have "b = a \<or> b < a" by auto
    then show False
    proof
      assume "b = a"
      with lt show False by simp
    next
      assume "b < a"
      with assms(1,2) have "drop (sa_arr st ! b) (map char_to_int t) < drop (sa_arr st ! a) (map char_to_int t)"
        by (simp add: final_ok_def)
      with lt show False by simp
    qed
  qed
qed

lemma final_ok_rank_less:
  assumes ok: "final_ok t st" and i: "i < length t" and j: "j < length t"
  shows "drop i (map char_to_int t) < drop j (map char_to_int t)
         \<longleftrightarrow> rank_array st ! i < rank_array st ! j"
proof -
  let ?a = "nat (rank_array st ! i)" and ?b = "nat (rank_array st ! j)"
  have "drop (sa_arr st ! ?a) (map char_to_int t) < drop (sa_arr st ! ?b) (map char_to_int t)
        \<longleftrightarrow> ?a < ?b"
    using ok final_ok_rank(2)[OF ok i] final_ok_rank(2)[OF ok j] by (rule final_ok_less)
  moreover have "?a < ?b \<longleftrightarrow> rank_array st ! i < rank_array st ! j"
    using final_ok_rank(1)[OF ok i] final_ok_rank(1)[OF ok j] by linarith
  ultimately show ?thesis
    by (simp only: final_ok_rank(3)[OF ok i] final_ok_rank(3)[OF ok j])
qed

lemma final_ok_rank_inj:
  assumes ok: "final_ok t st" and "i < length t" and "j < length t"
    and "rank_array st ! i = rank_array st ! j"
  shows "i = j"
proof -
  have "i = sa_arr st ! nat (rank_array st ! i)"
    using final_ok_rank(3)[OF ok assms(2)] by (rule sym)
  also have "\<dots> = sa_arr st ! nat (rank_array st ! j)"
    by (simp only: assms(4))
  also have "\<dots> = j"
    using ok assms(3) by (rule final_ok_rank(3))
  finally show ?thesis .
qed

lemma seven_bit_inj: "seven_bit t \<Longrightarrow> inj_on char_to_int (set t)"
  by (rule inj_onI) (simp add: seven_bit_def char_to_int_seven_bit)

lemma seven_bit_lcp:
  assumes "seven_bit t"
  shows "lcp_len (drop i (map char_to_int t)) (drop j (map char_to_int t))
          = lcp_len (drop i t) (drop j t)"
proof -
  have "inj_on char_to_int (set (drop i t) \<union> set (drop j t))"
    using seven_bit_inj[OF assms] by (rule inj_on_subset) (auto dest: in_set_dropD)
  then show ?thesis
    unfolding drop_map by (rule lcp_len_map)
qed

lemma kasai_shift:
  assumes ok: "final_ok t st" and sb: "seven_bit t" and m: "m < length t"
    and rm: "0 < rank_array st ! m"
    and two: "2 \<le> pred_lcp t (sa_arr st) (rank_array st) m"
  shows "Suc m < length t" and "0 < rank_array st ! Suc m"
    and "pred_lcp t (sa_arr st) (rank_array st) m - 1
          \<le> pred_lcp t (sa_arr st) (rank_array st) (Suc m)"
proof -
  let ?s = "sa_arr st" and ?r = "rank_array st" and ?X = "map char_to_int t"
  define a where "a = nat (?r ! m)"
  have a: "0 < a" "a < length t" "?s ! a = m"
    using rm final_ok_rank(2,3)[OF ok m] by (simp_all add: a_def)
  define p where "p = ?s ! (a - 1)"
  have pred: "nat (?r ! m - 1) = a - 1"
    using rm by (simp add: a_def)
  have p: "p < length t"
    unfolding p_def using ok a(2) by (intro final_ok_nth) simp_all
  have H: "pred_lcp t ?s ?r m = lcp_len (drop m t) (drop p t)"
    by (simp add: pred_lcp_def pred p_def)
  have "drop (?s ! (a - 1)) ?X < drop (?s ! a) ?X"
    using a by (subst final_ok_less[OF ok]) simp_all
  then have lt_pm: "drop p ?X < drop m ?X"
    by (simp only: p_def a(3))
  have "lcp_len (drop m t) (drop p t) \<le> length (drop m t)"
    by (rule lcp_len_le_length)
  with two H show Sm: "Suc m < length t" by simp
  have "lcp_len (drop p t) (drop m t) \<le> length (drop p t)"
    by (rule lcp_len_le_length)
  with two H have Sp: "Suc p < length t" by (simp add: lcp_len_commute[of "drop p t"])
  have pos: "0 < lcp_len (drop m t) (drop p t)" using two H by simp
  have teq: "t ! m = t ! p"
    using m p pos by (rule lcp_len_tail(1))
  have tail: "lcp_len (drop (Suc m) t) (drop (Suc p) t) = lcp_len (drop m t) (drop p t) - 1"
    using m p pos by (rule lcp_len_tail(2))
  have "?X ! p = ?X ! m" using teq m p by simp
  then have less_tail: "drop (Suc p) ?X < drop (Suc m) ?X"
    using lt_pm m p by (intro suffix_less_tail) simp_all
  then have rless: "?r ! Suc p < ?r ! Suc m"
    using final_ok_rank_less[OF ok Sp Sm] by simp
  then show rSm: "0 < ?r ! Suc m"
    using final_ok_rank(1)[OF ok Sp] by simp
  define b where "b = nat (?r ! Suc m)"
  define c where "c = nat (?r ! Suc p)"
  have b: "b < length t" "?s ! b = Suc m"
    using final_ok_rank(2,3)[OF ok Sm] by (simp_all add: b_def)
  have c: "?s ! c = Suc p"
    using final_ok_rank(3)[OF ok Sp] by (simp add: c_def)
  have cb: "c < b"
    using rless final_ok_rank(1)[OF ok Sp] by (simp add: b_def c_def)
  define q where "q = ?s ! (b - 1)"
  have predS: "nat (?r ! Suc m - 1) = b - 1"
    using rSm by (simp add: b_def)
  have HS: "pred_lcp t ?s ?r (Suc m) = lcp_len (drop (Suc m) t) (drop q t)"
    by (simp add: pred_lcp_def predS q_def)
  have le_q: "drop (Suc p) ?X \<le> drop q ?X"
  proof (cases "c = b - 1")
    case True
    then show ?thesis using c by (simp add: q_def)
  next
    case False
    with cb have "c < b - 1" by simp
    moreover have "c < length t" "b - 1 < length t" using cb b(1) by simp_all
    ultimately have "drop (?s ! c) ?X < drop (?s ! (b - 1)) ?X"
      by (subst final_ok_less[OF ok]) simp_all
    then show ?thesis by (simp add: c q_def)
  qed
  have "drop (?s ! (b - 1)) ?X < drop (?s ! b) ?X"
    using cb b(1) by (subst final_ok_less[OF ok]) simp_all
  then have lt_q: "drop q ?X \<le> drop (Suc m) ?X"
    by (simp add: q_def b(2))
  have "lcp_len (drop (Suc p) ?X) (drop (Suc m) ?X) \<le> lcp_len (drop q ?X) (drop (Suc m) ?X)"
    using le_q lt_q by (rule lcp_len_between)
  then have "lcp_len (drop (Suc p) t) (drop (Suc m) t) \<le> lcp_len (drop q t) (drop (Suc m) t)"
    by (simp only: seven_bit_lcp[OF sb])
  then have "lcp_len (drop (Suc m) t) (drop (Suc p) t) \<le> lcp_len (drop (Suc m) t) (drop q t)"
    by (simp only: lcp_len_commute[of "drop (Suc m) t"])
  then show "pred_lcp t ?s ?r m - 1 \<le> pred_lcp t ?s ?r (Suc m)"
    by (simp only: HS H tail)
qed

lemma kasai_inv_step:
  assumes ok: "final_ok t st" and sb: "seven_bit t" and m: "m < length t"
    and inv: "kasai_inv t (sa_arr st) (rank_array st) m lh"
  shows "kasai_inv t (sa_arr st) (rank_array st) (Suc m)
           (kasai_step t (sa_arr st) (rank_array st) m lh)"
proof -
  let ?s = "sa_arr st" and ?r = "rank_array st"
  let ?H = "pred_lcp t ?s ?r"
  obtain l h where lh: "lh = (l, h)" by (cases lh)
  from inv lh have len: "length l = length t" and h0: "0 \<le> h" and l0: "l ! 0 = 0"
    and filled: "\<forall>i < m. 0 < ?r ! i \<longrightarrow> l ! nat (?r ! i) = int (?H i)"
    and carry: "0 < h \<longrightarrow> 0 < ?r ! m \<and> h \<le> int (?H m)"
    by (simp_all add: kasai_inv_def)
  show ?thesis
  proof (cases "0 < ?r ! m")
    case False
    with carry h0 have hz: "h = 0" by (cases "0 < h") simp_all
    have "kasai_step t ?s ?r m lh = (l, h)"
      using False by (simp add: kasai_step_def lh)
    moreover have "\<forall>i < Suc m. 0 < ?r ! i \<longrightarrow> l ! nat (?r ! i) = int (?H i)"
      using filled False by (auto simp: less_Suc_eq)
    ultimately show ?thesis
      using len l0 hz by (simp add: kasai_inv_def)
  next
    case True
    define prev where "prev = ?s ! nat (?r ! m - 1)"
    have Hm: "?H m = lcp_len (drop m t) (drop prev t)"
      by (simp add: pred_lcp_def prev_def)
    have "nat h \<le> ?H m"
    proof (cases "0 < h")
      case True
      with carry have "h \<le> int (?H m)" by simp
      then show ?thesis by linarith
    next
      case False
      with h0 show ?thesis by simp
    qed
    then have ext: "lcp_extend t m prev h = int (?H m)"
      unfolding Hm using h0 by (intro lcp_extend_exact) simp_all
    define l1 where "l1 = l[nat (?r ! m) := int (?H m)]"
    define h1 where "h1 = (if 0 < int (?H m) then int (?H m) - 1 else int (?H m))"
    have step: "kasai_step t ?s ?r m lh = (l1, h1)"
      using True ext by (simp add: kasai_step_def lh Let_def prev_def[symmetric] l1_def h1_def)
    have km: "nat (?r ! m) < length t" using final_ok_rank(2)[OF ok m] .
    have "length l1 = length t" using len by (simp add: l1_def)
    moreover have "0 \<le> h1" by (simp add: h1_def)
    moreover have "l1 ! 0 = 0" using True l0 by (simp add: l1_def)
    moreover have "\<forall>i < Suc m. 0 < ?r ! i \<longrightarrow> l1 ! nat (?r ! i) = int (?H i)"
    proof (intro allI impI)
      fix i assume i: "i < Suc m" and ri: "0 < ?r ! i"
      show "l1 ! nat (?r ! i) = int (?H i)"
      proof (cases "i = m")
        case True
        then show ?thesis using km len by (simp add: l1_def)
      next
        case False
        with i have im: "i < m" by simp
        then have "i < length t" using m by simp
        then have "?r ! i \<noteq> ?r ! m"
          using final_ok_rank_inj[OF ok _ m] False by blast
        then have "nat (?r ! i) \<noteq> nat (?r ! m)" using ri True by simp
        then have "l1 ! nat (?r ! i) = l ! nat (?r ! i)" by (simp add: l1_def)
        with filled im ri show ?thesis by simp
      qed
    qed
    moreover have "0 < h1 \<longrightarrow> Suc m < length t \<and> 0 < ?r ! Suc m \<and> h1 \<le> int (?H (Suc m))"
    proof
      assume "0 < h1"
      then have two: "2 \<le> ?H m" and h1: "h1 = int (?H m - 1)"
        by (simp_all add: h1_def split: if_splits)
      from kasai_shift[OF ok sb m True two] h1
      show "Suc m < length t \<and> 0 < ?r ! Suc m \<and> h1 \<le> int (?H (Suc m))" by simp
    qed
    ultimately show ?thesis
      unfolding step by (simp add: kasai_inv_def)
  qed
qed

lemma kasai_inv_fold:
  assumes ok: "final_ok t st" and sb: "seven_bit t" and ne: "t \<noteq> []"
  shows "m \<le> length t \<Longrightarrow>
         kasai_inv t (sa_arr st) (rank_array st) m
           (fold (kasai_step t (sa_arr st) (rank_array st)) [0..<m] (replicate (length t) 0, 0))"
proof (induction m)
  case 0
  show ?case using ne by (simp add: kasai_inv_def)
next
  case (Suc m)
  then have "m < length t" by simp
  moreover have "kasai_inv t (sa_arr st) (rank_array st) m
           (fold (kasai_step t (sa_arr st) (rank_array st)) [0..<m] (replicate (length t) 0, 0))"
    using Suc by simp
  ultimately have "kasai_inv t (sa_arr st) (rank_array st) (Suc m)
     (kasai_step t (sa_arr st) (rank_array st) m
        (fold (kasai_step t (sa_arr st) (rank_array st)) [0..<m] (replicate (length t) 0, 0)))"
    by (rule kasai_inv_step[OF ok sb])
  then show ?case by simp
qed

lemma kasai_exact:
  assumes ok: "final_ok t st" and sb: "seven_bit t" and ne: "t \<noteq> []"
  shows "length (kasai t (sa_arr st) (rank_array st)) = length t"
    and "kasai t (sa_arr st) (rank_array st) ! 0 = 0"
    and "0 < k \<Longrightarrow> k < length t \<Longrightarrow>
         kasai t (sa_arr st) (rank_array st) ! k
           = suffix_lcp t (sa_arr st ! (k - 1)) (sa_arr st ! k)"
proof -
  let ?s = "sa_arr st" and ?r = "rank_array st"
  obtain l h where lh: "fold (kasai_step t ?s ?r) [0..<length t] (replicate (length t) 0, 0) = (l, h)"
    by (cases "fold (kasai_step t ?s ?r) [0..<length t] (replicate (length t) 0, 0)")
  have res: "kasai t ?s ?r = l" by (simp add: kasai_def lh)
  have "kasai_inv t ?s ?r (length t) (l, h)"
    using kasai_inv_fold[OF ok sb ne, of "length t"] by (simp add: lh)
  then have len: "length l = length t" and l0: "l ! 0 = 0"
    and all: "\<forall>i < length t. 0 < ?r ! i \<longrightarrow> l ! nat (?r ! i) = int (pred_lcp t ?s ?r i)"
    by (simp_all add: kasai_inv_def)
  show "length (kasai t ?s ?r) = length t" using len res by simp
  show "kasai t ?s ?r ! 0 = 0" using l0 res by simp
  assume k: "0 < k" "k < length t"
  have rk: "?r ! (?s ! k) = int k" using ok k(2) by (simp add: final_ok_def)
  have sk: "?s ! k < length t" using ok k(2) by (rule final_ok_nth)
  have "0 < ?r ! (?s ! k)" using rk k(1) by simp
  with all sk have "l ! nat (?r ! (?s ! k)) = int (pred_lcp t ?s ?r (?s ! k))"
    by blast
  moreover have "nat (?r ! (?s ! k)) = k" "nat (?r ! (?s ! k) - 1) = k - 1"
    using rk by simp_all
  ultimately have "l ! k = int (lcp_len (drop (?s ! k) t) (drop (?s ! (k - 1)) t))"
    by (simp only: pred_lcp_def)
  then show "kasai t ?s ?r ! k = suffix_lcp t (?s ! (k - 1)) (?s ! k)"
    unfolding res suffix_lcp_def by (simp add: lcp_len_commute)
qed

lemma seven_bit_build:
  assumes sb: "seven_bit t" and ne: "t \<noteq> []"
  obtains st where "doubling_loop (length t) (init_state t) = Some st"
    and "final_ok t st"
    and "buildSuffixArrayAndLCP t = Some \<lparr>sa = sa_arr st, lcp = kasai t (sa_arr st) (rank_array st)\<rparr>"
proof -
  from loop_inv_terminates[OF loop_inv_init[OF sb] ne]
  obtain st where st: "doubling_loop (length t) (init_state t) = Some st" by blast
  moreover have "final_ok t st" using sb st by (rule seven_bit_final)
  moreover have "buildSuffixArrayAndLCP t = Some \<lparr>sa = sa_arr st, lcp = kasai t (sa_arr st) (rank_array st)\<rparr>"
    using ne st by (simp add: buildSuffixArrayAndLCP_def)
  ultimately show ?thesis by (rule that)
qed

section \<open>The claims\<close>

subsection \<open>Sorted suffixes\<close>

text \<open>
  Claim C1 says that the suffix at \<open>SA[i-1]\<close> is lexicographically at most the suffix at
  \<open>SA[i]\<close>, for every text. On the two-byte text \<^verbatim>\<open>"\xfe\xfe"\<close> (with \<^verbatim>\<open>char\<close> signed)
  the function returns \<open>SA = [0, 1]\<close>: the suffix \<^verbatim>\<open>"\xfe\xfe"\<close> is put before its own
  proper prefix \<^verbatim>\<open>"\xfe"\<close>.
\<close>

theorem C1_unsorted_at_high_bytes:
  "buildSuffixArrayAndLCP [CHR 0xFE, CHR 0xFE] = Some \<lparr>sa = [0, 1], lcp = [0, 1]\<rparr>
   \<and> \<not> suffix_le [CHR 0xFE, CHR 0xFE] ([0, 1] ! 0) ([0, 1] ! 1)"
proof
  show "buildSuffixArrayAndLCP [CHR 0xFE, CHR 0xFE] = Some \<lparr>sa = [0, 1], lcp = [0, 1]\<rparr>"
    by (rule build_from_fuel[OF _ high_two_loop high_two_kasai]) simp
  show "\<not> suffix_le [CHR 0xFE, CHR 0xFE] ([0, 1] ! 0) ([0, 1] ! 1)"
    by (simp add: suffix_le_def)
qed

text \<open>
  Where every byte of the text is below \<^verbatim>\<open>0x80\<close> the function returns, and the suffix
  array it returns is sorted.
\<close>

theorem seven_bit_sorted:
  assumes sb: "seven_bit t"
  shows "\<exists>res. buildSuffixArrayAndLCP t = Some res
           \<and> (\<forall>i. 0 < i \<and> i < length t \<longrightarrow> suffix_le t (sa res ! (i - 1)) (sa res ! i))"
proof (cases "t = []")
  case True
  then show ?thesis by (simp add: buildSuffixArrayAndLCP_def)
next
  case False
  from seven_bit_build[OF sb False] obtain st
    where ok: "final_ok t st"
      and res: "buildSuffixArrayAndLCP t = Some \<lparr>sa = sa_arr st, lcp = kasai t (sa_arr st) (rank_array st)\<rparr>"
    by blast
  have "suffix_le t (sa_arr st ! (i - 1)) (sa_arr st ! i)" if "0 < i" "i < length t" for i
  proof -
    from that have "i - 1 < i" by simp
    with ok that(2) have "drop (sa_arr st ! (i - 1)) (map char_to_int t) < drop (sa_arr st ! i) (map char_to_int t)"
      unfolding final_ok_def by blast
    then show ?thesis
      by (simp add: suffix_le_def lex_le_iff drop_map)
  qed
  with res show ?thesis by simp
qed

subsection \<open>Permutation\<close>

text \<open>
  Claim C2 says that for every text of length \<open>n\<close> the array \<open>SA\<close> that the function
  returns has length \<open>n\<close> and holds each of \<open>0..n-1\<close> exactly once. On \<^verbatim>\<open>"\xff\xff"\<close>
  (with \<^verbatim>\<open>char\<close> signed) the rank-doubling loop never reaches its \<^verbatim>\<open>break\<close>: the
  function returns no array at all, neither of the two permutations of \<open>0..1\<close>.
\<close>

theorem C2_no_array_at_0xFF:
  "map_option sa (buildSuffixArrayAndLCP [CHR 0xFF, CHR 0xFF]) = None
   \<and> map_option sa (buildSuffixArrayAndLCP [CHR 0xFF, CHR 0xFF]) \<noteq> Some [0, 1]
   \<and> map_option sa (buildSuffixArrayAndLCP [CHR 0xFF, CHR 0xFF]) \<noteq> Some [1, 0]"
proof -
  have len: "length [CHR 0xFF, CHR 0xFF] = 2" by simp
  have "buildSuffixArrayAndLCP [CHR 0xFF, CHR 0xFF] = None"
    unfolding buildSuffixArrayAndLCP_def Let_def
    by (simp only: len stuck_loop_none option.simps) simp
  then show ?thesis by simp
qed

text \<open>
  What holds of every text (of fewer than \<open>2^31\<close> symbols, so that \<^verbatim>\<open>int n\<close> is its
  length): a result, where the function returns one, holds an array of length \<open>n\<close>
  that is a permutation of \<open>0..n-1\<close>. The lemma does not say that a result is
  returned; on texts of seven-bit symbols one is.
\<close>

lemma returned_sa_permutation:
  assumes res: "buildSuffixArrayAndLCP text = Some res"
  shows "length (sa res) = length text" and "mset (sa res) = mset [0..<length text]"
    and "\<forall>k < length text. count_list (sa res) k = 1"
proof -
  show perm: "mset (sa res) = mset [0..<length text]"
    using res
  proof (cases rule: build_Some_cases)
    case 1
    then show ?thesis by simp
  next
    case (2 st)
    from doubling_loop_wf[OF 2(2) wf_init_state] 2(3) show ?thesis
      by (simp add: wf_state_def)
  qed
  then show "length (sa res) = length text"
    by (metis length_upt mset_eq_length minus_nat.diff_0)
  show "\<forall>k < length text. count_list (sa res) k = 1"
  proof (intro allI impI)
    fix k
    assume k: "k < length text"
    have "count (mset (sa res)) k = count (mset [0..<length text]) k"
      by (simp only: perm)
    also have "\<dots> = 1"
      using k distinct_upt[of 0 "length text"] unfolding distinct_count_atmost_1 by simp
    finally show "count_list (sa res) k = 1"
      by (simp add: count_mset)
  qed
qed

subsection \<open>Exact LCP values\<close>

text \<open>
  Claim C3 says that \<open>LCP[i]\<close> is the length of the longest common prefix of the
  suffixes at \<open>SA[i-1]\<close> and \<open>SA[i]\<close>, for every non-empty text. On
  \<^verbatim>\<open>"\xfe\xfe\xfe\xfe"\<close> the function returns \<open>SA = [2,0,1,3]\<close> and
  \<open>LCP = [0,2,3,2]\<close>; the suffixes at \<open>SA[2] = 1\<close> and \<open>SA[3] = 3\<close> have one symbol
  in common, and \<open>LCP[3]\<close> is 2.
\<close>

theorem C3_lcp_wrong_at_high_bytes:
  "buildSuffixArrayAndLCP [CHR 0xFE, CHR 0xFE, CHR 0xFE, CHR 0xFE] =
     Some \<lparr>sa = [2, 0, 1, 3], lcp = [0, 2, 3, 2]\<rparr>
   \<and> suffix_lcp [CHR 0xFE, CHR 0xFE, CHR 0xFE, CHR 0xFE] ([2, 0, 1, 3] ! 2) ([2, 0, 1, 3] ! 3) = 1
   \<and> [0, 2, 3, 2] ! 3 \<noteq> (1 :: int)"
proof (intro conjI)
  show "buildSuffixArrayAndLCP [CHR 0xFE, CHR 0xFE, CHR 0xFE, CHR 0xFE] =
     Some \<lparr>sa = [2, 0, 1, 3], lcp = [0, 2, 3, 2]\<rparr>"
    by (rule build_from_fuel[OF _ high_four_loop high_four_kasai]) simp
qed (simp_all add: suffix_lcp_def)

text \<open>
  Where every byte of the text is below \<^verbatim>\<open>0x80\<close>, the returned \<open>LCP\<close> has the length
  of the text, starts with 0 and holds the exact common-prefix lengths of neighbours
  in \<open>SA\<close>.
\<close>

theorem seven_bit_lcp_exact:
  assumes sb: "seven_bit t" and ne: "t \<noteq> []"
  shows "\<exists>res. buildSuffixArrayAndLCP t = Some res
           \<and> length (lcp res) = length t \<and> lcp res ! 0 = 0
           \<and> (\<forall>i. 0 < i \<and> i < length t \<longrightarrow>
                 lcp res ! i = suffix_lcp t (sa res ! (i - 1)) (sa res ! i))"
proof -
  from seven_bit_build[OF sb ne] obtain st
    where ok: "final_ok t st"
      and res: "buildSuffixArrayAndLCP t = Some \<lparr>sa = sa_arr st, lcp = kasai t (sa_arr st) (rank_array st)\<rparr>"
    by blast
  from kasai_exact[OF ok sb ne] res show ?thesis by simp
qed

subsection \<open>Termination\<close>

text \<open>
  Claim C4 says that the function returns for every text. On \<^verbatim>\<open>"\xff\xff"\<close> both
  initial ranks equal the sentinel \<open>-1\<close>; the two positions compare equal in every pass,
  the ranks stay \<open>[0, 0]\<close>, and the exit test \<open>rank[SA[1]] = 1\<close> never holds: the loop
  returns nothing. (In C++ the doubling of \<^verbatim>\<open>gap\<close> overflows \<^verbatim>\<open>int\<close> after 31 passes,
  which is undefined behaviour.)
\<close>

theorem C4_no_result_at_0xFF:
  "buildSuffixArrayAndLCP [CHR 0xFF, CHR 0xFF] = None"
proof -
  have none: "doubling_loop 2 (init_state [CHR 0xFF, CHR 0xFF]) = None"
    using stuck_never_returns[of 2 "init_state [CHR 0xFF, CHR 0xFF]"] stuck_init
    by (cases "doubling_loop 2 (init_state [CHR 0xFF, CHR 0xFF])") auto
  have len: "length [CHR 0xFF, CHR 0xFF] = 2" by simp
  show ?thesis
    unfolding buildSuffixArrayAndLCP_def Let_def
    by (simp only: len none option.simps) simp
qed

text \<open>Where every byte of the text is below \<^verbatim>\<open>0x80\<close>, the function returns.\<close>

theorem seven_bit_total:
  assumes "seven_bit t"
  shows "\<exists>res. buildSuffixArrayAndLCP t = Some res"
  using assms by (rule seven_bit_returns)

subsection \<open>Ranks along the suffix array\<close>

text \<open>
  Claim C5. After every pass of the rank-doubling loop (the \<open>k\<close>-th, for every \<open>k\<close>) the
  values \<open>rank[SA[i]]\<close> do not decrease with \<open>i\<close>. When the loop exits, its final state
  is the state after one of these passes, and its rank table is the inverse of its
  suffix array: \<open>rank[SA[i]] = i\<close> for every \<open>i < n\<close>.
\<close>

theorem C5_rank_invariant:
  "sorted (map (\<lambda>i. rank_array (pass (length text) (loop_head (length text) (init_state text) k)) ! i)
               (sa_arr (pass (length text) (loop_head (length text) (init_state text) k))))
   \<and> (doubling_loop (length text) (init_state text) = Some st \<longrightarrow>
        (\<exists>k. st = pass (length text) (loop_head (length text) (init_state text) k))
        \<and> (\<forall>i < length text. rank_array st ! (sa_arr st ! i) = int i))"
proof (intro conjI impI)
  let ?n = "length text"
  have wf: "wf_state ?n (loop_head ?n (init_state text) k)" for k
    using wf_init_state by (rule wf_loop_head)
  show "sorted (map (\<lambda>i. rank_array (pass ?n (loop_head ?n (init_state text) k)) ! i)
               (sa_arr (pass ?n (loop_head ?n (init_state text) k))))"
    using wf by (rule pass_rank_sorted)
  assume "doubling_loop ?n (init_state text) = Some st"
  then obtain k where k: "st = pass ?n (loop_head ?n (init_state text) k)" "loop_exit ?n st"
    using doubling_loop_result by blast
  from k(1) show "\<exists>k. st = pass ?n (loop_head ?n (init_state text) k)" ..
  show "\<forall>i < ?n. rank_array st ! (sa_arr st ! i) = int i"
    using pass_exit_inverse[OF wf[of k]] k by blast
qed

theorem C5_rank_invariant_witness:
  "doubling_loop (length ''banana'') (init_state ''banana'') =
     Some \<lparr>gap = 2, sa_arr = [5, 3, 1, 0, 4, 2], rank_array = [3, 2, 5, 1, 4, 0],
           temp_rank_array = [3, 2, 5, 1, 4, 0], passes = 2\<rparr>
   \<and> map (\<lambda>i. [3, 2, 5, 1, 4, 0] ! ([5, 3, 1, 0, 4, 2] ! i)) [0, 1, 2, 3, 4, 5]
       = [0, 1, 2, 3, 4, 5 :: int]"
  using C5_rank_invariant[of "''banana''" 0 "\<lparr>gap = 2, sa_arr = [5, 3, 1, 0, 4, 2], rank_array = [3, 2, 5, 1, 4, 0],
           temp_rank_array = [3, 2, 5, 1, 4, 0], passes = 2\<rparr>"]
    doubling_loop_fuel_Some[OF banana_loop]
  by simp

subsection \<open>The sentinel\<close>

text \<open>
  Claim C6 says that the sentinel \<open>-1\<close> is below every rank of the current rank table,
  the initial table included. For \<^verbatim>\<open>"\xfe\xfe"\<close> the initial table is \<open>[-2, -2]\<close>. In the
  first pass position 1 has no next rank (\<open>1 + gap\<close> is not below \<open>n\<close>) and gets the
  sentinel \<open>-1\<close>, which is not below the rank \<open>-2\<close> that position 0 has as its next
  rank; the comparator puts position 0, the longer suffix, first.
\<close>

theorem C6_sentinel_above_rank:
  "rank_array (init_state [CHR 0xFE, CHR 0xFE]) = [- 2, - 2]
   \<and> \<not> (1 + gap (init_state [CHR 0xFE, CHR 0xFE]) < length [CHR 0xFE, CHR 0xFE])
   \<and> \<not> (- 1 < rank_array (init_state [CHR 0xFE, CHR 0xFE]) ! 1)
   \<and> compare_suffixes (rank_array (init_state [CHR 0xFE, CHR 0xFE]))
        (gap (init_state [CHR 0xFE, CHR 0xFE])) (length [CHR 0xFE, CHR 0xFE]) 0 1"
  by code_simp

text \<open>
  Where every byte of the text is below \<^verbatim>\<open>0x80\<close>, the sentinel is below every entry
  of the rank table at the head of every pass.
\<close>

theorem seven_bit_sentinel:
  assumes sb: "seven_bit t"
  shows "\<forall>i < length t. - 1 < rank_array (loop_head (length t) (init_state t) k) ! i"
proof -
  have "loop_inv t (loop_head (length t) (init_state t) k)"
    using loop_inv_init[OF sb] by (rule loop_inv_loop_head)
  then have "\<forall>i < length t. 0 \<le> rank_array (loop_head (length t) (init_state t) k) ! i"
    by (simp add: loop_inv_def rank_rep_def)
  then show ?thesis by auto
qed

subsection \<open>Boundary inputs\<close>

text \<open>
  Claim C7. The empty input gives \<open>SA = []\<close> and \<open>LCP = []\<close>; every input of one
  symbol \<open>c\<close>, whatever the symbol, gives \<open>SA = [0]\<close> and \<open>LCP = [0]\<close>.
\<close>

theorem C7_boundary:
  "buildSuffixArrayAndLCP [] = Some \<lparr>sa = [], lcp = []\<rparr>
   \<and> buildSuffixArrayAndLCP [c] = Some \<lparr>sa = [0], lcp = [0]\<rparr>"
  by (simp add: buildSuffixArrayAndLCP_def loop_single kasai_single)

subsection \<open>The examples\<close>

text \<open>
  Claim C8. On \<^verbatim>\<open>"banana"\<close> the function returns \<open>SA = [5,3,1,0,4,2]\<close> and
  \<open>LCP = [0,1,3,0,0,2]\<close>; on \<^verbatim>\<open>"mississippi"\<close> it returns
  \<open>SA = [10,7,4,1,0,9,8,6,3,5,2]\<close> and \<open>LCP = [0,1,1,4,0,0,1,0,2,1,3]\<close>.
\<close>

theorem C8_examples:
  "buildSuffixArrayAndLCP ''banana'' = Some \<lparr>sa = [5, 3, 1, 0, 4, 2], lcp = [0, 1, 3, 0, 0, 2]\<rparr>
   \<and> buildSuffixArrayAndLCP ''mississippi'' =
       Some \<lparr>sa = [10, 7, 4, 1, 0, 9, 8, 6, 3, 5, 2], lcp = [0, 1, 1, 4, 0, 0, 1, 0, 2, 1, 3]\<rparr>"
proof
  show "buildSuffixArrayAndLCP ''banana'' = Some \<lparr>sa = [5, 3, 1, 0, 4, 2], lcp = [0, 1, 3, 0, 0, 2]\<rparr>"
    by (rule build_from_fuel[OF _ banana_loop banana_kasai]) simp
  show "buildSuffixArrayAndLCP ''mississippi'' =
       Some \<lparr>sa = [10, 7, 4, 1, 0, 9, 8, 6, 3, 5, 2], lcp = [0, 1, 1, 4, 0, 0, 1, 0, 2, 1, 3]\<rparr>"
    by (rule build_from_fuel[OF _ mississippi_loop mississippi_kasai]) simp
qed

subsection \<open>Passes on short inputs\<close>

text \<open>
  Claim C9 says that for every text of length at most 1, the empty text included, the
  body of the rank-doubling loop runs at least once. On the empty text the guard
  \<^verbatim>\<open>if (n == 0) return\<close> fires before the loop: the body runs zero times, not once.
\<close>

theorem C9_empty_counterexample:
  "loop_passes [] = Some 0 \<and> loop_passes [] \<noteq> Some 1"
  by (simp add: loop_passes_def)

text \<open>
  Claim C9, amended. On the empty text the function returns before the loop and the loop
  body never runs. On every text of one symbol the body runs exactly once: the first
  pass already passes the exit test.
\<close>

theorem C9_amended:
  "loop_passes [] = Some 0
   \<and> loop_passes [c] = Some 1 \<and> loop_exit 1 (pass 1 (init_state [c]))"
  using exit_single[of c] by (simp add: loop_passes_def loop_single)

subsection \<open>Bounds of the LCP values\<close>

text \<open>
  Claim C10 says that no \<open>LCP\<close> value is negative and that
  \<open>LCP[i] \<le> n - max(SA[i-1], SA[i])\<close>, for every non-empty text. On
  \<^verbatim>\<open>"\xfe\xfe\xfe\xfe"\<close> the value \<open>LCP[3] = 2\<close> exceeds
  \<open>n - max(SA[2], SA[3]) = 4 - 3 = 1\<close>.
\<close>

theorem C10_lcp_bound_broken_at_high_bytes:
  "buildSuffixArrayAndLCP [CHR 0xFE, CHR 0xFE, CHR 0xFE, CHR 0xFE] =
     Some \<lparr>sa = [2, 0, 1, 3], lcp = [0, 2, 3, 2]\<rparr>
   \<and> \<not> ([0, 2, 3, 2] ! 3 \<le> int (length [CHR 0xFE, CHR 0xFE, CHR 0xFE, CHR 0xFE])
                - int (max ([2, 0, 1, 3] ! 2) ([2, 0, 1, 3] ! 3)))"
proof (intro conjI)
  show "buildSuffixArrayAndLCP [CHR 0xFE, CHR 0xFE, CHR 0xFE, CHR 0xFE] =
     Some \<lparr>sa = [2, 0, 1, 3], lcp = [0, 2, 3, 2]\<rparr>"
    by (rule build_from_fuel[OF _ high_four_loop high_four_kasai]) simp
qed simp

text \<open>
  Where every byte of the text is below \<^verbatim>\<open>0x80\<close>, no \<open>LCP\<close> value is negative and
  each is bounded by the length of the shorter of the two suffixes.
\<close>

theorem seven_bit_lcp_bound:
  assumes sb: "seven_bit t" and ne: "t \<noteq> []"
  shows "\<exists>res. buildSuffixArrayAndLCP t = Some res
           \<and> (\<forall>i < length t. 0 \<le> lcp res ! i)
           \<and> (\<forall>i. 0 < i \<and> i < length t \<longrightarrow>
                 lcp res ! i \<le> int (length t) - int (max (sa res ! (i - 1)) (sa res ! i)))"
proof -
  from seven_bit_build[OF sb ne] obtain st
    where ok: "final_ok t st"
      and res: "buildSuffixArrayAndLCP t = Some \<lparr>sa = sa_arr st, lcp = kasai t (sa_arr st) (rank_array st)\<rparr>"
    by blast
  let ?l = "kasai t (sa_arr st) (rank_array st)"
  note ex = kasai_exact[OF ok sb ne]
  have nonneg: "0 \<le> ?l ! i" if "i < length t" for i
  proof (cases "i = 0")
    case True
    with ex(2) show ?thesis by simp
  next
    case False
    with that ex(3)[of i] show ?thesis by (simp add: suffix_lcp_def)
  qed
  have bound: "?l ! i \<le> int (length t) - int (max (sa_arr st ! (i - 1)) (sa_arr st ! i))"
    if i: "0 < i" "i < length t" for i
  proof -
    let ?a = "sa_arr st ! (i - 1)" and ?b = "sa_arr st ! i"
    have a: "?a < length t" using ok i by (intro final_ok_nth) simp_all
    have b: "?b < length t" using ok i(2) by (rule final_ok_nth)
    have "lcp_len (drop ?a t) (drop ?b t) \<le> length (drop ?a t)"
      by (rule lcp_len_le_length)
    moreover have "lcp_len (drop ?b t) (drop ?a t) \<le> length (drop ?b t)"
      by (rule lcp_len_le_length)
    ultimately have "lcp_len (drop ?a t) (drop ?b t) \<le> length t - max ?a ?b"
      by (simp add: lcp_len_commute[of "drop ?b t"] max_def)
    then have "int (lcp_len (drop ?a t) (drop ?b t)) \<le> int (length t) - int (max ?a ?b)"
      using a b by linarith
    then show ?thesis
      using ex(3)[OF i] by (simp only: suffix_lcp_def)
  qed
  from res nonneg bound show ?thesis by simp
qed

end
